theory Spec2Isabelle
  imports Main "HOL-Library.Word"
begin

unbundle bit_operations_syntax

section \<open>Machine types and build constants\<close>

text \<open>
  The model follows \<^verbatim>\<open>src/testfuse.c\<close> as built without \<^verbatim>\<open>SMALL_BLOCK_TEST\<close> on an
  LP64 little-endian host: \<^verbatim>\<open>uint32_t\<close> is \<open>32 word\<close>, \<^verbatim>\<open>uint64_t\<close> and
  \<^verbatim>\<open>size_t\<close> are \<open>64 word\<close>, and \<^verbatim>\<open>off_t\<close> is the 64-bit two's complement
  bit pattern, also kept in a \<open>64 word\<close>.
\<close>

type_synonym u8 = "8 word"
type_synonym u32 = "32 word"
type_synonym u64 = "64 word"

definition BLOCK_SIZE :: nat where
  "BLOCK_SIZE = 64 * 1024"

definition BLOCK_SHIFT :: nat where
  "BLOCK_SHIFT = 16"

definition OFFSET_MASK :: nat where
  "OFFSET_MASK = BLOCK_SIZE - 1"

section \<open>Seed mixing: \<^verbatim>\<open>crc\<close>\<close>

definition polynomial :: u32 where
  "polynomial = 0x04C11DB7"

definition msb_mask :: u32 where
  "msb_mask = 0x80000000"

definition divisor :: u32 where
  "divisor = msb_mask OR drop_bit 1 polynomial"

definition divisor_next :: u32 where
  "divisor_next = push_bit 31 (polynomial AND 0x01)"

text \<open>
  One pass through the body of the \<^verbatim>\<open>for\<close> loop of \<^verbatim>\<open>crc\<close>, at loop counter \<open>i\<close>, on
  the pair \<open>(input, input_next)\<close>: the refill, the conditional xor and the shift.
\<close>

definition crc_body :: "nat \<Rightarrow> u32 \<Rightarrow> u32 \<times> u32 \<Rightarrow> u32 \<times> u32" where
  "crc_body i block st =
     (case st of (input, input_next) \<Rightarrow>
        let input_next = (if i = 1 * 4 * 8 then block else input_next);
            (input, input_next) =
              (if input AND msb_mask \<noteq> 0
               then (input XOR divisor, input_next XOR divisor_next)
               else (input, input_next));
            input = push_bit 1 input;
            input = (if input_next AND msb_mask \<noteq> 0 then input OR 0x01 else input);
            input_next = push_bit 1 input_next
        in (input, input_next))"

text \<open>
  The loop run for the counters \<open>0, \<dots>, n - 1\<close>; \<^verbatim>\<open>crc\<close> runs it for
  \<open>n = 3 * sizeof(uint32_t) * 8 = 96\<close> and returns \<open>input\<close>.
\<close>

definition crc_loop :: "nat \<Rightarrow> u32 \<Rightarrow> u32 \<times> u32 \<Rightarrow> u32 \<times> u32" where
  "crc_loop n block st = fold (\<lambda>i. crc_body i block) [0..<n] st"

definition crc :: "u32 \<Rightarrow> u32 \<Rightarrow> u32 \<Rightarrow> u32" where
  "crc global_seed file_seed block =
     fst (crc_loop (3 * 4 * 8) block (global_seed, file_seed))"

section \<open>Block generation: \<^verbatim>\<open>get_block\<close>\<close>

definition global_seed :: u32 where
  "global_seed = 123456789"

text \<open>
  One pass through the body of the \<^verbatim>\<open>for\<close> loop of \<^verbatim>\<open>get_block\<close> at counter \<open>i\<close>,
  on the generator state \<open>(x, y, z, w)\<close> and the destination seen as \<^verbatim>\<open>uint32_t *buf32\<close>.
\<close>

definition get_block_body ::
  "nat \<Rightarrow> (u32 \<times> u32 \<times> u32 \<times> u32) \<times> u32 list \<Rightarrow> (u32 \<times> u32 \<times> u32 \<times> u32) \<times> u32 list" where
  "get_block_body i st =
     (case st of ((x, y, z, w), buf32) \<Rightarrow>
        let t = x XOR push_bit 11 x;
            x = y; y = z; z = w;
            w = w XOR drop_bit 19 w XOR (t XOR drop_bit 8 t)
        in ((x, y, z, w), buf32[i := w]))"

text \<open>
  The cast \<^verbatim>\<open>(uint32_t*)buf\<close>: four consecutive bytes are one word, least significant
  byte first.
\<close>

definition le_bytes :: "u32 \<Rightarrow> u8 list" where
  "le_bytes v = [ucast v, ucast (drop_bit 8 v), ucast (drop_bit 16 v), ucast (drop_bit 24 v)]"

definition le_word :: "u8 \<Rightarrow> u8 \<Rightarrow> u8 \<Rightarrow> u8 \<Rightarrow> u32" where
  "le_word a b c d =
     ucast a OR push_bit 8 (ucast b) OR push_bit 16 (ucast c) OR push_bit 24 (ucast d)"

definition bytes_of_words :: "u32 list \<Rightarrow> u8 list" where
  "bytes_of_words ws = concat (map le_bytes ws)"

fun words_of_bytes :: "u8 list \<Rightarrow> u32 list" where
  "words_of_bytes (a # b # c # d # bs) = le_word a b c d # words_of_bytes bs"
| "words_of_bytes bs = []"

text \<open>
  \<^verbatim>\<open>get_block(block, buf, file_seed)\<close>: \<open>buf\<close> is the content of the \<^verbatim>\<open>BLOCK_SIZE\<close> bytes
  that the pointer designates before the call, the result their content after it. Both
  callers pass a region of exactly that many bytes. The parameter \<^verbatim>\<open>int block\<close> is kept as
  its 32-bit pattern: it comes from a \<^verbatim>\<open>uint32_t\<close> and is converted back to one for \<^verbatim>\<open>crc\<close>.
\<close>

definition get_block :: "u32 \<Rightarrow> u8 list \<Rightarrow> u32 \<Rightarrow> u8 list" where
  "get_block block buf file_seed =
     (let x = crc global_seed file_seed block;
          y = 362436069;
          z = 521288629;
          w = 88675123;
          buf32 = words_of_bytes buf
      in bytes_of_words
           (snd (fold get_block_body [0..<BLOCK_SIZE div 4] ((x, y, z, w), buf32))))"

section \<open>The registry and \<^verbatim>\<open>fop_read\<close>\<close>

record testfile_t =
  name :: string
  size_f :: u64
  seed :: u32

text \<open>
  A store through \<^verbatim>\<open>buf\<close> beyond the bytes the caller supplied is undefined behaviour in C;
  the model stops there with a fault.
\<close>

datatype fault = BufferOverflow

text \<open>
  The two locals of the loop body, \<^verbatim>\<open>uint32_t block = abs_offset>>BLOCK_SHIFT\<close> and
  \<^verbatim>\<open>uint32_t offset = abs_offset & OFFSET_MASK\<close>. The shift acts on the signed \<^verbatim>\<open>off_t\<close>,
  so it is the arithmetic one; the conversion to \<^verbatim>\<open>uint32_t\<close> keeps the low 32 bits.
\<close>

definition block_nr :: "u64 \<Rightarrow> u32" where
  "block_nr abs_offset = ucast (signed_drop_bit BLOCK_SHIFT abs_offset)"

definition intra_offset :: "u64 \<Rightarrow> u32" where
  "intra_offset abs_offset = ucast (abs_offset AND of_nat OFFSET_MASK)"

text \<open>
  The state of the \<^verbatim>\<open>while\<close> loop of \<^verbatim>\<open>fop_read\<close>: the bytes stored so far (the caller's
  buffer below the moving pointer \<^verbatim>\<open>buf\<close>), the caller's buffer from \<^verbatim>\<open>buf\<close> on, \<^verbatim>\<open>size\<close>
  and \<^verbatim>\<open>abs_offset\<close>. The parameter \<open>block_buffer\<close> is the indeterminate content of the
  local array \<^verbatim>\<open>char block_buffer[BLOCK_SIZE]\<close> before \<^verbatim>\<open>get_block\<close> fills it.
\<close>

type_synonym read_state = "u8 list \<times> u8 list \<times> u64 \<times> u64"

definition read_body :: "u32 \<Rightarrow> u8 list \<Rightarrow> read_state \<Rightarrow> fault + read_state" where
  "read_body file_seed block_buffer st =
     (case st of (out, buf, sz, abs_offset) \<Rightarrow>
        let block = block_nr abs_offset;
            offset = intra_offset abs_offset
        in if offset = 0 \<and> sz \<ge> of_nat BLOCK_SIZE then
             if length buf < BLOCK_SIZE then Inl BufferOverflow
             else Inr (out @ get_block block (take BLOCK_SIZE buf) file_seed,
                       drop BLOCK_SIZE buf,
                       sz - of_nat BLOCK_SIZE,
                       abs_offset + of_nat BLOCK_SIZE)
           else
             let block_buffer = get_block block block_buffer file_seed;
                 bytes = (if sz < of_nat BLOCK_SIZE - ucast offset then sz
                          else of_nat BLOCK_SIZE - ucast offset)
             in if length buf < unat bytes then Inl BufferOverflow
                else Inr (out @ take (unat bytes) (drop (unat offset) block_buffer),
                          drop (unat bytes) buf,
                          sz - bytes,
                          abs_offset + bytes))"

function read_loop :: "u32 \<Rightarrow> u8 list \<Rightarrow> read_state \<Rightarrow> fault + read_state" where
  "read_loop file_seed block_buffer (out, buf, sz, abs_offset) =
     (if sz = 0 then Inr (out, buf, sz, abs_offset)
      else case read_body file_seed block_buffer (out, buf, sz, abs_offset) of
             Inl e \<Rightarrow> Inl e
           | Inr st \<Rightarrow> read_loop file_seed block_buffer st)"
  by pat_completeness auto
termination
proof (relation "measure (\<lambda>(file_seed, block_buffer, out, buf, sz, abs_offset). unat sz)")
  show "wf (measure (\<lambda>(file_seed, block_buffer, out, buf, sz, abs_offset). unat sz))"
    by simp
next
  fix file_seed :: u32 and block_buffer out buf :: "u8 list" and sz abs_offset :: u64
    and st :: read_state
  assume nz: "sz \<noteq> 0"
    and body: "read_body file_seed block_buffer (out, buf, sz, abs_offset) = Inr st"
  obtain out' buf' sz' abs_offset' where st: "st = (out', buf', sz', abs_offset')"
    by (cases st) auto
  have m: "(65535 :: u64) = mask 16"
    by (simp add: mask_eq_exp_minus_1)
  have lt: "unat (ucast (intra_offset abs_offset) :: u64) < BLOCK_SIZE"
    by (simp add: intra_offset_def OFFSET_MASK_def BLOCK_SIZE_def m unsigned_ucast_eq
        unsigned_take_bit_eq take_bit_eq_mod unat_mod_distrib flip: take_bit_eq_mask)
  have bs: "unat (of_nat BLOCK_SIZE :: u64) = BLOCK_SIZE"
    by (simp add: BLOCK_SIZE_def)
  have le: "(ucast (intra_offset abs_offset) :: u64) \<le> of_nat BLOCK_SIZE"
    using lt by (simp add: word_le_nat_alt bs)
  have part: "unat (of_nat BLOCK_SIZE - ucast (intra_offset abs_offset) :: u64)
                = BLOCK_SIZE - unat (ucast (intra_offset abs_offset) :: u64)"
    by (simp add: unat_sub [OF le] bs)
  have pos: "0 < unat sz"
    using nz by (simp add: unat_gt_0)
  have "unat sz' < unat sz"
  proof (cases "intra_offset abs_offset = 0 \<and> of_nat BLOCK_SIZE \<le> sz")
    case True
    then have "sz' = sz - of_nat BLOCK_SIZE"
      using body st by (simp add: read_body_def Let_def split: if_splits)
    moreover have "0 < BLOCK_SIZE"
      by (simp add: BLOCK_SIZE_def)
    ultimately show ?thesis
      using True pos by (simp add: unat_sub bs)
  next
    case False
    let ?room = "of_nat BLOCK_SIZE - ucast (intra_offset abs_offset) :: u64"
    from False have "sz' = sz - (if sz < ?room then sz else ?room)"
      using body st by (auto simp add: read_body_def Let_def split: if_splits)
    moreover have "0 < unat ?room"
      using lt by (simp add: part)
    ultimately show ?thesis
      using pos by (auto simp add: unat_sub word_le_nat_alt word_less_nat_alt)
  qed
  then show "((file_seed, block_buffer, st), (file_seed, block_buffer, out, buf, sz, abs_offset))
      \<in> measure (\<lambda>(file_seed, block_buffer, out, buf, sz, abs_offset). unat sz)"
    by (simp add: st)
qed

declare read_loop.simps [simp del]

text \<open>
  The head of \<^verbatim>\<open>fop_read\<close>: the leading slash of the path is skipped, and the registry
  is searched from its head for the first entry whose name \<^verbatim>\<open>strcmp\<close> finds equal.
\<close>

definition ENOENT :: int where
  "ENOENT = 2"

definition skip_slash :: "string \<Rightarrow> string" where
  "skip_slash path =
     (case path of [] \<Rightarrow> path | c # rest \<Rightarrow> if c = CHR ''/'' then rest else path)"

definition lookup :: "testfile_t list \<Rightarrow> string \<Rightarrow> testfile_t option" where
  "lookup testfile_list path = find (\<lambda>testfile. path = name testfile) testfile_list"

text \<open>
  \<^verbatim>\<open>fop_read(path, buf, size, abs_offset, fi)\<close> against the registry \<^verbatim>\<open>testfile_list\<close>.
  The result is the \<^verbatim>\<open>int\<close> returned, the bytes stored through \<^verbatim>\<open>buf\<close> in address order
  from its start, and the rest of the caller's buffer, left as it was. The conversion of
  \<^verbatim>\<open>orig_size\<close> to the return type \<^verbatim>\<open>int\<close> keeps the low 32 bits, read as two's complement.
\<close>

definition fop_read ::
  "testfile_t list \<Rightarrow> string \<Rightarrow> u8 list \<Rightarrow> u8 list \<Rightarrow> u64 \<Rightarrow> u64
     \<Rightarrow> fault + int \<times> u8 list \<times> u8 list" where
  "fop_read testfile_list path buf block_buffer sz abs_offset =
     (let path = skip_slash path in
      case lookup testfile_list path of
        None \<Rightarrow> Inr (- ENOENT, [], buf)
      | Some testfile \<Rightarrow>
          let sz = (if abs_offset + sz > size_f testfile
                    then size_f testfile - abs_offset else sz);
              orig_size = sz
          in (case read_loop (seed testfile) block_buffer ([], buf, sz, abs_offset) of
                Inl e \<Rightarrow> Inl e
              | Inr (out, rest, _, _) \<Rightarrow> Inr (sint (ucast orig_size :: 32 word), out, rest)))"

section \<open>Registration of a file specification in \<^verbatim>\<open>main\<close>\<close>

text \<open>
  The body of the \<^verbatim>\<open>do\<close> loop of \<^verbatim>\<open>main\<close> for one file specification. The three tokens
  of \<^verbatim>\<open>strtok_r\<close> are optional (\<open>None\<close> is \<^verbatim>\<open>NULL\<close>); for the size and the seed the model
  takes what \<^verbatim>\<open>strtoll(str, &endptr, 0)\<close> gives: the value, as the 64-bit pattern, and the
  character \<^verbatim>\<open>*endptr\<close> (\<open>CHR 0x00\<close> at the end of the string). The test \<^verbatim>\<open>name == '\0'\<close>
  compares the pointer with null and cannot hold after the first test. The allocations of
  \<^verbatim>\<open>malloc\<close> and \<^verbatim>\<open>strdup\<close> are taken to succeed.
\<close>

datatype reg_error = Usage | InvalidSize | InvalidSeed

definition parse_size :: "u64 \<Rightarrow> char \<Rightarrow> u64" where
  "parse_size v endc =
     (if endc = CHR ''k'' \<or> endc = CHR ''K'' then v * 1024
      else if endc = CHR ''m'' \<or> endc = CHR ''M'' then v * (1024 * 1024)
      else if endc = CHR ''g'' \<or> endc = CHR ''G'' then v * (1024 * 1024 * 1024)
      else v)"

definition main_body ::
  "string option \<Rightarrow> (u64 \<times> char) option \<Rightarrow> (u64 \<times> char) option \<Rightarrow> testfile_t list
     \<Rightarrow> reg_error + testfile_t list" where
  "main_body name_tok size_tok seed_tok testfile_list =
     (case (name_tok, size_tok, seed_tok) of
        (Some nm, Some (size_val, size_end), Some (seed_val, seed_end)) \<Rightarrow>
          let sz = parse_size size_val size_end in
          if sz = 0 then Inl InvalidSize
          else
            let sd = (ucast seed_val :: u32) in
            if sd = 0 \<or> seed_end \<noteq> CHR 0x00 then Inl InvalidSeed
            else Inr (\<lparr>name = nm, size_f = sz, seed = sd\<rparr> # testfile_list)
      | _ \<Rightarrow> Inl Usage)"

section \<open>The specification's vocabulary\<close>

text \<open>
  \<open>generate_block(block_index, file_seed)\<close> of the specification is \<^verbatim>\<open>get_block\<close> writing
  into a fresh buffer of \<^verbatim>\<open>BLOCK_SIZE\<close> bytes.
\<close>

definition generate_block :: "u32 \<Rightarrow> u32 \<Rightarrow> u8 list" where
  "generate_block block_index file_seed =
     get_block block_index (replicate BLOCK_SIZE 0) file_seed"

text \<open>
  The xorshift generator as the specification words it: a step takes \<open>(a, b, c, d)\<close>,
  computes \<open>t = a \<oplus> (a << 11)\<close>, rotates the state words and replaces \<open>d\<close> by
  \<open>d \<oplus> (d >> 19) \<oplus> (t \<oplus> (t >> 8))\<close>, which is also the word emitted.
\<close>

definition xorshift_step :: "u32 \<times> u32 \<times> u32 \<times> u32 \<Rightarrow> u32 \<times> u32 \<times> u32 \<times> u32" where
  "xorshift_step st =
     (case st of (a, b, c, d) \<Rightarrow>
        let t = a XOR push_bit 11 a
        in (b, c, d, d XOR drop_bit 19 d XOR (t XOR drop_bit 8 t)))"

definition emitted :: "u32 \<times> u32 \<times> u32 \<times> u32 \<Rightarrow> u32" where
  "emitted st = (case st of (a, b, c, d) \<Rightarrow> d)"

primrec xorshift_words :: "nat \<Rightarrow> u32 \<times> u32 \<times> u32 \<times> u32 \<Rightarrow> u32 list" where
  "xorshift_words 0 st = []"
| "xorshift_words (Suc n) st = emitted (xorshift_step st) # xorshift_words n (xorshift_step st)"

text \<open>
  The content of a file with seed \<open>file_seed\<close> at byte position \<open>pos\<close>, by the block
  generator; the blocks \<open>0, \<dots>, n - 1\<close> one after the other; and the number of blocks
  that cover the positions below \<open>pos\<close>.
\<close>

definition byte_at :: "u32 \<Rightarrow> nat \<Rightarrow> u8" where
  "byte_at file_seed pos =
     generate_block (of_nat (pos div BLOCK_SIZE)) file_seed ! (pos mod BLOCK_SIZE)"

definition blocks_upto :: "u32 \<Rightarrow> nat \<Rightarrow> u8 list" where
  "blocks_upto file_seed n =
     concat (map (\<lambda>k. generate_block (of_nat k) file_seed) [0..<n])"

definition blocks_covering :: "nat \<Rightarrow> nat" where
  "blocks_covering pos = (pos + BLOCK_SIZE - 1) div BLOCK_SIZE"

section \<open>Auxiliary notions for the proofs\<close>

text \<open>
  The loop body of \<^verbatim>\<open>crc\<close> without the refill, in closed form: the divisor is
  subtracted when the top bit of \<open>a\<close> is set, and the bit shifted in from \<open>n\<close> is its top
  bit, flipped by the low bit of the polynomial in that case.
\<close>

definition crc_step :: "u32 \<times> u32 \<Rightarrow> u32 \<times> u32" where
  "crc_step st =
     (case st of (a, n) \<Rightarrow>
        (push_bit 1 (a XOR (if bit a 31 then divisor else 0))
           XOR (if bit a 31 \<noteq> bit n 31 then 1 else 0),
         push_bit 1 n))"

text \<open>The words of a block, by the generator of the specification.\<close>

definition block_words :: "u32 \<Rightarrow> u32 \<Rightarrow> u32 list" where
  "block_words block file_seed =
     xorshift_words (BLOCK_SIZE div 4) (crc global_seed file_seed block, 362436069, 521288629, 88675123)"

section \<open>Offsets, block numbers and sizes\<close>

lemma mask16: "(65535 :: u64) = mask 16"
  by (simp add: mask_eq_exp_minus_1)

lemma intra_offset_unat: "unat (intra_offset a) = unat a mod BLOCK_SIZE"
  by (simp add: intra_offset_def OFFSET_MASK_def BLOCK_SIZE_def mask16 unsigned_ucast_eq
      unsigned_take_bit_eq take_bit_eq_mod unat_mod_distrib flip: take_bit_eq_mask)

lemma block_nr_drop_bit: "block_nr a = ucast (drop_bit BLOCK_SHIFT a)"
  unfolding block_nr_def BLOCK_SHIFT_def
  by (rule bit_eqI) (auto simp add: bit_simps)

lemma block_nr_unat: "unat (block_nr a) = (unat a div BLOCK_SIZE) mod 2 ^ 32"
  by (simp add: block_nr_drop_bit BLOCK_SHIFT_def BLOCK_SIZE_def unsigned_ucast_eq
      unat_drop_bit_eq drop_bit_eq_div take_bit_eq_mod unat_div_distrib)

lemma block_nr_of_nat: "block_nr a = of_nat (unat a div BLOCK_SIZE)"
  apply (rule word_unat_eq_iff[THEN iffD2])
  apply (simp add: block_nr_unat unat_of_nat)
  done

lemma ucast_intra_unat: "unat (ucast (intra_offset a) :: u64) = unat a mod BLOCK_SIZE"
  apply (simp add: unsigned_ucast_eq intra_offset_unat take_bit_eq_mod)
  apply (simp add: BLOCK_SIZE_def)
  done

lemma bytes_unat:
  "unat (of_nat BLOCK_SIZE - ucast (intra_offset a) :: u64) = BLOCK_SIZE - unat a mod BLOCK_SIZE"
  apply (subst unat_sub)
   apply (simp add: word_le_nat_alt ucast_intra_unat unat_of_nat)
   apply (simp add: BLOCK_SIZE_def)
  apply (simp add: ucast_intra_unat unat_of_nat)
  apply (simp add: BLOCK_SIZE_def)
  done

section \<open>The loop of \<^verbatim>\<open>crc\<close> as a linear shift register\<close>

lemma and_pow_test: "(a AND 2 ^ k \<noteq> 0) \<longleftrightarrow> bit a k" for a :: u32
  by (simp add: and_exp_eq_0_iff_not_bit)

lemma push_or_one: "0 < k \<Longrightarrow> push_bit k x OR 1 = push_bit k x XOR 1" for x :: u32
  by (rule bit_eqI) (auto simp add: bit_simps)

lemma push_drops_top: "32 \<le> k + m \<Longrightarrow> push_bit k (n XOR 2 ^ m) = push_bit k n" for n :: u32
  by (rule bit_eqI) (auto simp add: bit_simps)

lemma bit_xor_pow: "m < 32 \<Longrightarrow> bit (n XOR 2 ^ m) m \<longleftrightarrow> \<not> bit n m" for n :: u32
  by (simp add: bit_simps)

lemma msb_mask_pow: "msb_mask = 2 ^ 31"
  by (simp add: msb_mask_def)

lemma divisor_next_pow: "divisor_next = 2 ^ 31"
  by (simp add: divisor_next_def polynomial_def)

lemma crc_body_step:
  "crc_body i block (input, input_next) =
     crc_step (input, if i = 32 then block else input_next)"
proof -
  define n where "n = (if i = 32 then block else input_next)"
  have i32: "(1 * 4 * 8 :: nat) = 32"
    by simp
  have msb: "(a AND msb_mask \<noteq> 0) = bit a 31" for a :: u32
    unfolding msb_mask_pow by (rule and_pow_test)
  have nx: "bit (n XOR divisor_next) 31 = (\<not> bit n 31)"
    unfolding divisor_next_pow by (rule bit_xor_pow) simp
  have sh: "push_bit 1 (n XOR divisor_next) = push_bit 1 n"
    unfolding divisor_next_pow by (rule push_drops_top) simp
  have or1: "push_bit 1 x OR 0x01 = push_bit 1 x XOR 1" for x :: u32
    by (rule push_or_one) simp
  have x0: "x XOR 0 = x" for x :: u32
    by simp
  show ?thesis
    unfolding crc_body_def crc_step_def Let_def prod.case i32 n_def [symmetric] msb
    by (cases "bit input 31"; cases "bit n 31")
      (simp_all only: if_True if_False prod.case nx sh or1 x0 simp_thms)
qed

lemma crc_step_snd: "snd (crc_step (a, n)) = push_bit 1 n"
  by (simp only: crc_step_def prod.case snd_conv)

lemma crc_step_xor:
  "crc_step (a XOR a', n XOR n') =
     (fst (crc_step (a, n)) XOR fst (crc_step (a', n')),
      snd (crc_step (a, n)) XOR snd (crc_step (a', n')))"
  by (simp add: crc_step_def bit_xor_iff ac_simps del: push_bit_Suc One_nat_def)

lemma crc_steps_xor:
  "(crc_step ^^ k) (a XOR a', n XOR n') =
     (fst ((crc_step ^^ k) (a, n)) XOR fst ((crc_step ^^ k) (a', n')),
      snd ((crc_step ^^ k) (a, n)) XOR snd ((crc_step ^^ k) (a', n')))"
proof (induction k)
  case 0
  show ?case by simp
next
  case (Suc k)
  obtain b m where st: "(crc_step ^^ k) (a, n) = (b, m)"
    by (cases "(crc_step ^^ k) (a, n)") auto
  obtain b' m' where st': "(crc_step ^^ k) (a', n') = (b', m')"
    by (cases "(crc_step ^^ k) (a', n')") auto
  show ?case
    by (simp add: Suc.IH st st' crc_step_xor)
qed


lemma crc_step_fill:
  assumes "k < 32"
  shows "crc_step (drop_bit (32 - k) n, push_bit k n) = (drop_bit (32 - Suc k) n, push_bit (Suc k) n)"
proof -
  have top: "\<not> bit (drop_bit (32 - k) n) 31"
    using assms by (auto simp add: bit_simps dest: bit_imp_le_length)
  have nxt: "bit (push_bit k n) 31 \<longleftrightarrow> bit n (31 - k)"
    using assms by (auto simp add: bit_simps)
  have lo: "push_bit 1 (drop_bit (32 - k) n) XOR (if bit n (31 - k) then 1 else 0)
              = drop_bit (32 - Suc k) n"
  proof (rule bit_eqI)
    fix j
    assume "possible_bit TYPE(u32) j"
    then have j: "j < 32"
      by (simp add: possible_bit_def)
    show "bit (push_bit 1 (drop_bit (32 - k) n) XOR (if bit n (31 - k) then 1 else 0)) j
            \<longleftrightarrow> bit (drop_bit (32 - Suc k) n) j"
    proof (cases j)
      case 0
      then show ?thesis
        by (simp add: bit_simps del: push_bit_Suc One_nat_def)
    next
      case (Suc j')
      with j assms have "32 - k + j' = 32 - Suc k + j"
        by simp
      with Suc j show ?thesis
        by (simp add: bit_simps del: push_bit_Suc One_nat_def)
    qed
  qed
  have x0: "x XOR 0 = x" for x :: u32
    by simp
  have sh: "push_bit 1 (push_bit k n) = push_bit (Suc k) n"
    by (simp add: push_bit_eq_mult ac_simps)
  show ?thesis
    unfolding crc_step_def prod.case
    by (simp only: top nxt if_False x0 simp_thms lo sh)
qed

lemma crc_steps_fill:
  "k \<le> 32 \<Longrightarrow> (crc_step ^^ k) (0, n) = (drop_bit (32 - k) n, push_bit k n)"
proof (induction k)
  case 0
  show ?case
    by simp
next
  case (Suc k)
  then have "k < 32" and "(crc_step ^^ k) (0, n) = (drop_bit (32 - k) n, push_bit k n)"
    by simp_all
  then show ?case
    by (simp only: funpow.simps o_apply crc_step_fill)
qed

lemma crc_steps_load: "(crc_step ^^ 32) (0, n) = (n, 0)"
  using crc_steps_fill [of 32 n] by simp

lemma crc_step_kernel:
  assumes "crc_step (a, 0) = (c, m)"
  shows "m = 0" and "c = 0 \<Longrightarrow> a = 0"
proof -
  show "m = 0"
    using assms crc_step_snd [of a 0] by simp
  assume "c = 0"
  with assms have z: "push_bit 1 (a XOR (if bit a 31 then divisor else 0))
           XOR (if bit a 31 then 1 else 0) = 0"
    by (simp add: crc_step_def del: push_bit_Suc One_nat_def push_bit_xor)
  have top: "\<not> bit a 31"
  proof
    assume t: "bit a 31"
    have "bit (push_bit 1 (a XOR divisor) XOR 1 :: u32) 0"
      by (simp add: bit_simps del: push_bit_Suc One_nat_def push_bit_xor)
    with z t show False
      by (simp del: push_bit_Suc One_nat_def push_bit_xor)
  qed
  with z have p: "push_bit 1 a = 0"
    by (simp del: push_bit_Suc One_nat_def)
  show "a = 0"
  proof (rule bit_eqI)
    fix j
    assume "possible_bit TYPE(u32) j"
    then have j: "j < 32"
      by (simp add: possible_bit_def)
    show "bit a j \<longleftrightarrow> bit (0 :: u32) j"
    proof (cases "j = 31")
      case True
      with top show ?thesis by simp
    next
      case False
      with j have "bit (push_bit 1 a) (Suc j) \<longleftrightarrow> bit a j"
        by (simp add: bit_simps del: push_bit_Suc One_nat_def)
      with p show ?thesis by simp
    qed
  qed
qed

lemma crc_steps_kernel:
  "(crc_step ^^ k) (a, 0) = (c, m) \<Longrightarrow> m = 0 \<and> (c = 0 \<longrightarrow> a = 0)"
proof (induction k arbitrary: c m)
  case 0
  then show ?case by simp
next
  case (Suc k)
  obtain c' m' where st: "(crc_step ^^ k) (a, 0) = (c', m')"
    by (cases "(crc_step ^^ k) (a, 0)") auto
  with Suc.IH have m': "m' = 0" and c': "c' = 0 \<longrightarrow> a = 0"
    by simp_all
  from Suc.prems st m' have "crc_step (c', 0) = (c, m)"
    by simp
  from crc_step_kernel [OF this] c' show ?case
    by simp
qed

lemma crc_body_step': "crc_body i block st = crc_step (fst st, if i = 32 then block else snd st)"
  using crc_body_step [of i block "fst st" "snd st"] by simp

lemma crc_loop_Suc: "crc_loop (Suc n) block st = crc_body n block (crc_loop n block st)"
  by (simp add: crc_loop_def)

lemma crc_loop_first: "n \<le> 32 \<Longrightarrow> crc_loop n block st = (crc_step ^^ n) st"
proof (induction n)
  case 0
  show ?case by (simp add: crc_loop_def)
next
  case (Suc n)
  then show ?case
    by (simp add: crc_loop_Suc crc_body_step')
qed

lemma crc_loop_rest:
  "crc_loop (33 + k) block st = (crc_step ^^ Suc k) (fst ((crc_step ^^ 32) st), block)"
proof (induction k)
  case 0
  have "crc_loop 33 block st = crc_body 32 block (crc_loop 32 block st)"
    using crc_loop_Suc [of 32 block st] by simp
  then show ?case
    by (simp add: crc_body_step' crc_loop_first)
next
  case (Suc k)
  have "crc_loop (33 + Suc k) block st = crc_body (33 + k) block (crc_loop (33 + k) block st)"
    using crc_loop_Suc [of "33 + k" block st] by simp
  then show ?case
    by (simp add: crc_body_step' Suc.IH)
qed

lemma crc_steps: "crc g s b = fst ((crc_step ^^ 64) (fst ((crc_step ^^ 32) (g, s)), b))"
  using crc_loop_rest [of 63 b "(g, s)"] by (simp add: crc_def)


lemma crc_inj_block:
  assumes "crc g s b = crc g s b'"
  shows "b = b'"
proof -
  define A where "A = fst ((crc_step ^^ 32) (g, s))"
  have "(crc_step ^^ 64) (A XOR A, b XOR b') =
          (fst ((crc_step ^^ 64) (A, b)) XOR fst ((crc_step ^^ 64) (A, b')),
           snd ((crc_step ^^ 64) (A, b)) XOR snd ((crc_step ^^ 64) (A, b')))"
    by (rule crc_steps_xor)
  moreover have "fst ((crc_step ^^ 64) (A, b)) = fst ((crc_step ^^ 64) (A, b'))"
    using assms by (simp only: crc_steps A_def)
  ultimately have z: "fst ((crc_step ^^ 64) (0, b XOR b')) = 0"
    by (simp del: funpow.simps)
  have "(crc_step ^^ 64) (0, b XOR b') = (crc_step ^^ 32) ((crc_step ^^ 32) (0, b XOR b'))"
    using funpow_add [of 32 32 crc_step] by (simp del: funpow.simps)
  also have "\<dots> = (crc_step ^^ 32) (b XOR b', 0)"
    by (simp only: crc_steps_load)
  finally have e: "(crc_step ^^ 64) (0, b XOR b') = (crc_step ^^ 32) (b XOR b', 0)" .
  obtain c m where cm: "(crc_step ^^ 32) (b XOR b', 0) = (c, m)"
    by (cases "(crc_step ^^ 32) (b XOR b', 0)") auto
  from z e cm have "c = 0"
    by (simp del: funpow.simps)
  with crc_steps_kernel [OF cm] have d: "b XOR b' = 0"
    by simp
  have "b' = b XOR (b XOR b')"
    by (simp flip: xor.assoc)
  also have "\<dots> = b"
    by (simp only: d) simp
  finally show ?thesis
    by simp
qed

section \<open>\<^verbatim>\<open>get_block\<close> fills the buffer with the generator's words\<close>

lemma get_block_body_step:
  "get_block_body i (st, buf32) = (xorshift_step st, buf32[i := emitted (xorshift_step st)])"
  by (cases st) (simp add: get_block_body_def xorshift_step_def emitted_def Let_def)

lemma xorshift_words_length [simp]: "length (xorshift_words n st) = n"
  by (induction n arbitrary: st) simp_all

lemma xorshift_words_snoc:
  "xorshift_words (Suc n) st =
     xorshift_words n st @ [emitted ((xorshift_step ^^ Suc n) st)]"
proof (induction n arbitrary: st)
  case 0
  show ?case by simp
next
  case (Suc n)
  have "xorshift_words (Suc (Suc n)) st =
          emitted (xorshift_step st) # xorshift_words (Suc n) (xorshift_step st)"
    by simp
  also have "\<dots> = emitted (xorshift_step st) #
      (xorshift_words n (xorshift_step st)
         @ [emitted ((xorshift_step ^^ Suc n) (xorshift_step st))])"
    by (simp only: Suc.IH)
  finally show ?case
    by (simp add: funpow_swap1)
qed

lemma get_block_loop:
  "n \<le> length buf32 \<Longrightarrow>
   fold get_block_body [0..<n] (st, buf32) =
     ((xorshift_step ^^ n) st, xorshift_words n st @ drop n buf32)"
proof (induction n)
  case 0
  show ?case by simp
next
  case (Suc n)
  then have n: "n < length buf32" and
    ih: "fold get_block_body [0..<n] (st, buf32) =
           ((xorshift_step ^^ n) st, xorshift_words n st @ drop n buf32)"
    by simp_all
  have upd: "(xorshift_words n st @ drop n buf32)[n := v] =
               xorshift_words n st @ v # drop (Suc n) buf32" for v
  proof -
    have "drop n buf32 = buf32 ! n # drop (Suc n) buf32"
      using n by (rule Cons_nth_drop_Suc [symmetric])
    then show ?thesis
      by (simp add: list_update_append)
  qed
  have "fold get_block_body [0..<Suc n] (st, buf32) =
          get_block_body n (fold get_block_body [0..<n] (st, buf32))"
    by simp
  also have "\<dots> = (xorshift_step ((xorshift_step ^^ n) st),
      xorshift_words n st @ emitted (xorshift_step ((xorshift_step ^^ n) st)) # drop (Suc n) buf32)"
    by (simp only: ih get_block_body_step upd)
  finally show ?case
    by (simp only: xorshift_words_snoc funpow.simps o_apply append_assoc append_Cons append_Nil)
qed

lemma words_of_bytes_length: "length (words_of_bytes bs) = length bs div 4"
  by (induction bs rule: words_of_bytes.induct) simp_all

lemma bytes_of_words_length: "length (bytes_of_words ws) = 4 * length ws"
  by (induction ws) (simp_all add: bytes_of_words_def le_bytes_def)

lemma get_block_fills:
  assumes "length buf = BLOCK_SIZE"
  shows "get_block block buf file_seed = bytes_of_words (block_words block file_seed)"
proof -
  have "length (words_of_bytes buf) = BLOCK_SIZE div 4"
    using assms by (simp add: words_of_bytes_length)
  then show ?thesis
    by (simp add: get_block_def block_words_def get_block_loop del: upt_Suc)
qed

lemma generate_block_words:
  "generate_block block file_seed = bytes_of_words (block_words block file_seed)"
  by (simp add: generate_block_def get_block_fills)

lemma generate_block_length: "length (generate_block block file_seed) = BLOCK_SIZE"
  by (simp add: generate_block_words bytes_of_words_length block_words_def BLOCK_SIZE_def)

lemma get_block_generate:
  "length buf = BLOCK_SIZE \<Longrightarrow> get_block block buf file_seed = generate_block block file_seed"
  by (simp add: generate_block_words get_block_fills)

section \<open>The read loop\<close>

lemma BLOCK_SIZE_pos: "0 < BLOCK_SIZE"
  by (simp add: BLOCK_SIZE_def)

lemma unat_BLOCK_SIZE: "unat (of_nat BLOCK_SIZE :: u64) = BLOCK_SIZE"
  by (simp add: BLOCK_SIZE_def)

lemma unat_add_nowrap: "unat a + unat b < 2 ^ 64 \<Longrightarrow> unat (a + b) = unat a + unat b"
  for a b :: u64
  using unat_add_lem [of a b] by simp

lemma block_slice:
  assumes "pos mod BLOCK_SIZE + n \<le> BLOCK_SIZE"
  shows "take n (drop (pos mod BLOCK_SIZE) (generate_block (of_nat (pos div BLOCK_SIZE)) file_seed))
           = map (byte_at file_seed) [pos..<pos + n]"
proof (rule nth_equalityI)
  show "length (take n (drop (pos mod BLOCK_SIZE)
            (generate_block (of_nat (pos div BLOCK_SIZE)) file_seed)))
          = length (map (byte_at file_seed) [pos..<pos + n])"
    using assms by (simp add: generate_block_length)
next
  fix j
  assume "j < length (take n (drop (pos mod BLOCK_SIZE)
            (generate_block (of_nat (pos div BLOCK_SIZE)) file_seed)))"
  then have j: "j < n"
    by simp
  with assms have lt: "pos mod BLOCK_SIZE + j < BLOCK_SIZE"
    by simp
  have e: "pos + j = pos div BLOCK_SIZE * BLOCK_SIZE + (pos mod BLOCK_SIZE + j)"
    by simp
  have dv: "(pos + j) div BLOCK_SIZE = pos div BLOCK_SIZE"
    by (subst e, subst div_mult_self3) (use lt BLOCK_SIZE_pos in simp_all)
  have md: "(pos + j) mod BLOCK_SIZE = pos mod BLOCK_SIZE + j"
    by (subst e, subst mod_mult_self3) (use lt in simp)
  show "take n (drop (pos mod BLOCK_SIZE)
            (generate_block (of_nat (pos div BLOCK_SIZE)) file_seed)) ! j
          = map (byte_at file_seed) [pos..<pos + n] ! j"
    using j assms by (simp add: byte_at_def dv md generate_block_length)
qed

lemma read_body_step:
  assumes bb: "length block_buffer = BLOCK_SIZE"
    and nz: "sz \<noteq> 0"
    and cap: "unat sz \<le> length buf"
    and nowrap: "unat abs_offset + unat sz < 2 ^ 64"
  shows "\<exists>n sz' abs_offset'.
           read_body file_seed block_buffer (out, buf, sz, abs_offset) =
             Inr (out @ map (byte_at file_seed) [unat abs_offset..<unat abs_offset + n],
                  drop n buf, sz', abs_offset')
           \<and> 0 < n \<and> n \<le> BLOCK_SIZE \<and> unat sz' + n = unat sz
           \<and> unat abs_offset' = unat abs_offset + n"
proof -
  let ?pos = "unat abs_offset"
  have blk: "block_nr abs_offset = of_nat (?pos div BLOCK_SIZE)"
    by (rule block_nr_of_nat)
  have pos: "0 < unat sz"
    using nz by (simp add: unat_gt_0)
  show ?thesis
  proof (cases "intra_offset abs_offset = 0 \<and> of_nat BLOCK_SIZE \<le> sz")
    case True
    then have al: "?pos mod BLOCK_SIZE = 0" and big: "BLOCK_SIZE \<le> unat sz"
      using intra_offset_unat [of abs_offset]
      by (simp_all add: word_le_nat_alt unat_BLOCK_SIZE)
    from big cap have room: "\<not> length buf < BLOCK_SIZE" and tk: "length (take BLOCK_SIZE buf) = BLOCK_SIZE"
      by simp_all
    have "get_block (block_nr abs_offset) (take BLOCK_SIZE buf) file_seed
            = take BLOCK_SIZE (drop (?pos mod BLOCK_SIZE)
                (generate_block (of_nat (?pos div BLOCK_SIZE)) file_seed))"
      by (simp add: get_block_generate [OF tk] blk al generate_block_length)
    also have "\<dots> = map (byte_at file_seed) [?pos..<?pos + BLOCK_SIZE]"
      by (rule block_slice) (simp add: al)
    finally have bytes: "get_block (block_nr abs_offset) (take BLOCK_SIZE buf) file_seed
        = map (byte_at file_seed) [?pos..<?pos + BLOCK_SIZE]" .
    have s': "unat (sz - of_nat BLOCK_SIZE) + BLOCK_SIZE = unat sz"
      using True big by (simp add: unat_sub unat_BLOCK_SIZE)
    have o': "unat (abs_offset + of_nat BLOCK_SIZE) = ?pos + BLOCK_SIZE"
    proof -
      have "?pos + unat (of_nat BLOCK_SIZE :: u64) < 2 ^ 64"
        using nowrap big by (simp only: unat_BLOCK_SIZE)
      then have "unat (abs_offset + of_nat BLOCK_SIZE) = ?pos + unat (of_nat BLOCK_SIZE :: u64)"
        by (rule unat_add_nowrap)
      then show ?thesis
        by (simp only: unat_BLOCK_SIZE)
    qed
    show ?thesis
      using True room bytes s' o' BLOCK_SIZE_pos
      by (simp add: read_body_def Let_def)
  next
    case False
    let ?room = "of_nat BLOCK_SIZE - ucast (intra_offset abs_offset) :: u64"
    let ?bytes = "if sz < ?room then sz else ?room"
    have ur: "unat ?room = BLOCK_SIZE - ?pos mod BLOCK_SIZE"
      by (rule bytes_unat)
    have md: "?pos mod BLOCK_SIZE < BLOCK_SIZE"
      using BLOCK_SIZE_pos by simp
    have le: "?bytes \<le> sz"
      by (simp add: word_le_nat_alt word_less_nat_alt)
    have n0: "0 < unat ?bytes"
      using pos md by (simp add: ur)
    have nle: "unat ?bytes \<le> BLOCK_SIZE - ?pos mod BLOCK_SIZE"
      by (simp add: ur word_less_nat_alt)
    have nsz: "unat ?bytes \<le> unat sz"
      using le by (simp only: word_le_nat_alt)
    have room: "\<not> length buf < unat ?bytes"
      using nsz cap by simp
    have "take (unat ?bytes) (drop (unat (intra_offset abs_offset))
             (get_block (block_nr abs_offset) block_buffer file_seed))
          = take (unat ?bytes) (drop (?pos mod BLOCK_SIZE)
                (generate_block (of_nat (?pos div BLOCK_SIZE)) file_seed))"
      by (simp only: get_block_generate [OF bb] blk intra_offset_unat)
    also have "\<dots> = map (byte_at file_seed) [?pos..<?pos + unat ?bytes]"
    proof -
      have "?pos mod BLOCK_SIZE + unat ?bytes \<le> BLOCK_SIZE"
        using nle md by simp
      then show ?thesis
        by (rule block_slice)
    qed
    finally have bytes: "take (unat ?bytes) (drop (unat (intra_offset abs_offset))
             (get_block (block_nr abs_offset) block_buffer file_seed))
        = map (byte_at file_seed) [?pos..<?pos + unat ?bytes]" .
    have s': "unat (sz - ?bytes) + unat ?bytes = unat sz"
      using nsz by (simp add: unat_sub [OF le])
    have o': "unat (abs_offset + ?bytes) = ?pos + unat ?bytes"
    proof -
      have "?pos + unat ?bytes < 2 ^ 64"
        using nowrap nsz by linarith
      then show ?thesis
        by (rule unat_add_nowrap)
    qed
    have nB: "unat ?bytes \<le> BLOCK_SIZE"
      using nle by simp
    have "read_body file_seed block_buffer (out, buf, sz, abs_offset) =
            Inr (out @ map (byte_at file_seed) [?pos..<?pos + unat ?bytes],
                 drop (unat ?bytes) buf, sz - ?bytes, abs_offset + ?bytes)"
      using False room bytes
      by (simp only: read_body_def Let_def prod.case if_False simp_thms)
    with n0 nB s' o' show ?thesis
      by blast
  qed
qed

lemma read_loop_correct:
  assumes bb: "length block_buffer = BLOCK_SIZE"
    and cap: "unat sz \<le> length buf"
    and nowrap: "unat abs_offset + unat sz < 2 ^ 64"
  shows "\<exists>abs_offset'.
           read_loop file_seed block_buffer (out, buf, sz, abs_offset) =
             Inr (out @ map (byte_at file_seed) [unat abs_offset..<unat abs_offset + unat sz],
                  drop (unat sz) buf, 0, abs_offset')"
  using cap nowrap
proof (induction "unat sz" arbitrary: out buf sz abs_offset rule: less_induct)
  case less
  show ?case
  proof (cases "sz = 0")
    case True
    then show ?thesis
      by (simp add: read_loop.simps)
  next
    case False
    from read_body_step [OF bb False less.prems, of file_seed out]
    obtain n sz' abs_offset' where
      body: "read_body file_seed block_buffer (out, buf, sz, abs_offset) =
             Inr (out @ map (byte_at file_seed) [unat abs_offset..<unat abs_offset + n],
                  drop n buf, sz', abs_offset')"
      and n: "0 < n" and s': "unat sz' + n = unat sz"
      and o': "unat abs_offset' = unat abs_offset + n"
      by blast
    have lt: "unat sz' < unat sz"
      using n s' by simp
    have cap': "unat sz' \<le> length (drop n buf)"
      using less.prems(1) s' by simp
    have nowrap': "unat abs_offset' + unat sz' < 2 ^ 64"
      using less.prems(2) s' o' by simp
    from less.hyps [OF lt cap' nowrap',
        of "out @ map (byte_at file_seed) [unat abs_offset..<unat abs_offset + n]"]
    obtain fin where
      rec: "read_loop file_seed block_buffer
              (out @ map (byte_at file_seed) [unat abs_offset..<unat abs_offset + n],
               drop n buf, sz', abs_offset') =
            Inr ((out @ map (byte_at file_seed) [unat abs_offset..<unat abs_offset + n])
                   @ map (byte_at file_seed) [unat abs_offset'..<unat abs_offset' + unat sz'],
                 drop (unat sz') (drop n buf), 0, fin)"
      by blast
    have split: "[unat abs_offset..<unat abs_offset + unat sz] =
        [unat abs_offset..<unat abs_offset + n] @ [unat abs_offset'..<unat abs_offset' + unat sz']"
    proof -
      have "unat abs_offset + unat sz = unat abs_offset + n + unat sz'"
        using s' by simp
      then show ?thesis
        by (simp only: o' upt_add_eq_append [OF le_add1])
    qed
    have dr: "drop (unat sz') (drop n buf) = drop (unat sz) buf"
      using s' by (simp add: add.commute)
    have "read_loop file_seed block_buffer (out, buf, sz, abs_offset) =
            read_loop file_seed block_buffer
              (out @ map (byte_at file_seed) [unat abs_offset..<unat abs_offset + n],
               drop n buf, sz', abs_offset')"
      using False by (simp add: read_loop.simps [of _ _ out buf sz abs_offset] body)
    then show ?thesis
      by (simp only: rec split dr map_append append_assoc) blast
  qed
qed

section \<open>The result of \<^verbatim>\<open>fop_read\<close> and the concatenation of blocks\<close>

lemma clamp_unat:
  fixes sz abs_offset fsize :: u64
  assumes le: "unat abs_offset \<le> unat fsize"
    and nowrap: "unat abs_offset + unat sz < 2 ^ 64"
  shows "unat (if abs_offset + sz > fsize then fsize - abs_offset else sz)
           = min (unat sz) (unat fsize - unat abs_offset)"
proof -
  have sum: "unat (abs_offset + sz) = unat abs_offset + unat sz"
    using nowrap by (rule unat_add_nowrap)
  have sub: "unat (fsize - abs_offset) = unat fsize - unat abs_offset"
    using le by (simp add: unat_sub word_le_nat_alt)
  show ?thesis
    using le by (auto simp add: word_less_nat_alt sum sub)
qed

lemma fop_read_ok:
  assumes reg: "lookup testfile_list (skip_slash path) = Some testfile"
    and bb: "length block_buffer = BLOCK_SIZE"
    and le: "unat abs_offset \<le> unat (size_f testfile)"
    and nowrap: "unat abs_offset + unat sz < 2 ^ 64"
    and cap: "min (unat sz) (unat (size_f testfile) - unat abs_offset) \<le> length buf"
  shows "fop_read testfile_list path buf block_buffer sz abs_offset =
           Inr (sint (ucast (if abs_offset + sz > size_f testfile
                             then size_f testfile - abs_offset else sz) :: 32 word),
                map (byte_at (seed testfile))
                  [unat abs_offset..<unat abs_offset
                     + min (unat sz) (unat (size_f testfile) - unat abs_offset)],
                drop (min (unat sz) (unat (size_f testfile) - unat abs_offset)) buf)"
proof -
  let ?sz = "if abs_offset + sz > size_f testfile then size_f testfile - abs_offset else sz"
  have n: "unat ?sz = min (unat sz) (unat (size_f testfile) - unat abs_offset)"
    using le nowrap by (rule clamp_unat)
  have cap': "unat ?sz \<le> length buf"
    using cap by (simp only: n)
  have nowrap': "unat abs_offset + unat ?sz < 2 ^ 64"
    using nowrap by (simp add: n)
  from read_loop_correct [OF bb cap' nowrap', of "seed testfile" "[]"]
  obtain fin where
    "read_loop (seed testfile) block_buffer ([], buf, ?sz, abs_offset) =
       Inr ([] @ map (byte_at (seed testfile)) [unat abs_offset..<unat abs_offset + unat ?sz],
            drop (unat ?sz) buf, 0, fin)"
    by blast
  then show ?thesis
    by (simp add: fop_read_def reg Let_def n)
qed

lemma blocks_upto_length: "length (blocks_upto file_seed n) = n * BLOCK_SIZE"
  by (induction n) (simp_all add: blocks_upto_def generate_block_length)

lemma blocks_upto_Suc:
  "blocks_upto file_seed (Suc n) = blocks_upto file_seed n @ generate_block (of_nat n) file_seed"
  by (simp add: blocks_upto_def)

lemma blocks_upto_nth:
  "pos < n * BLOCK_SIZE \<Longrightarrow> blocks_upto file_seed n ! pos = byte_at file_seed pos"
proof (induction n)
  case 0
  then show ?case by simp
next
  case (Suc n)
  show ?case
  proof (cases "pos < n * BLOCK_SIZE")
    case True
    then show ?thesis
      by (simp add: blocks_upto_Suc nth_append blocks_upto_length Suc.IH)
  next
    case False
    then have ge: "n * BLOCK_SIZE \<le> pos"
      by simp
    define r where "r = pos - n * BLOCK_SIZE"
    have pos: "pos = n * BLOCK_SIZE + r"
      using ge by (simp add: r_def)
    have r: "r < BLOCK_SIZE"
      using Suc.prems ge by (simp add: r_def)
    have dv: "pos div BLOCK_SIZE = n"
      by (subst pos, subst div_mult_self3) (use r BLOCK_SIZE_pos in simp_all)
    have md: "pos mod BLOCK_SIZE = r"
      by (subst pos, subst mod_mult_self3) (use r in simp)
    show ?thesis
      using False by (simp add: blocks_upto_Suc nth_append blocks_upto_length byte_at_def dv md r_def)
  qed
qed

lemma blocks_upto_slice:
  assumes "pos + n \<le> k * BLOCK_SIZE"
  shows "take n (drop pos (blocks_upto file_seed k)) = map (byte_at file_seed) [pos..<pos + n]"
proof (rule nth_equalityI)
  show "length (take n (drop pos (blocks_upto file_seed k)))
          = length (map (byte_at file_seed) [pos..<pos + n])"
    using assms by (simp add: blocks_upto_length)
next
  fix j
  assume "j < length (take n (drop pos (blocks_upto file_seed k)))"
  then have j: "j < n"
    by simp
  with assms have "pos + j < k * BLOCK_SIZE"
    by simp
  then show "take n (drop pos (blocks_upto file_seed k)) ! j
               = map (byte_at file_seed) [pos..<pos + n] ! j"
    using j assms by (simp add: blocks_upto_length blocks_upto_nth)
qed

lemma blocks_covering_le: "pos \<le> blocks_covering pos * BLOCK_SIZE"
proof -
  have "pos + BLOCK_SIZE - 1 < (pos + BLOCK_SIZE - 1) div BLOCK_SIZE * BLOCK_SIZE + BLOCK_SIZE"
    using BLOCK_SIZE_pos
    by (metis div_mult_mod_eq add_less_cancel_left mod_less_divisor)
  then show ?thesis
    using BLOCK_SIZE_pos by (simp add: blocks_covering_def)
qed

lemma sint_ucast_small:
  fixes v :: u64
  assumes "unat v < 2 ^ 31"
  shows "sint (ucast v :: 32 word) = int (unat v)"
proof -
  have u: "uint v = int (unat v)"
    by simp
  have lt: "int (unat v) < 2 ^ 31"
    using assms by (metis of_nat_less_iff of_nat_numeral of_nat_power)
  have "uint (ucast v :: 32 word) = take_bit 32 (uint v)"
    by (simp add: unsigned_ucast_eq)
  also have "\<dots> = uint v"
    using lt by (simp only: u) (simp add: take_bit_int_eq_self)
  finally have "sint (ucast v :: 32 word) = signed_take_bit 31 (uint v)"
    by (simp add: sint_uint)
  also have "\<dots> = uint v"
  proof (rule signed_take_bit_int_eq_self)
    show "- (2 ^ 31) \<le> uint v"
      by (rule order_trans [of _ 0]) simp_all
    show "uint v < 2 ^ 31"
      using lt by (simp only: u)
  qed
  finally show ?thesis
    by (simp only: u)
qed

section \<open>One pass of the read loop, and the loop on two buffers\<close>

lemma read_body_shape:
  fixes sz abs_offset :: u64 and n :: nat
  assumes bb: "length block_buffer = BLOCK_SIZE" and nz: "sz \<noteq> 0"
  defines "n \<equiv> min (unat sz) (BLOCK_SIZE - unat abs_offset mod BLOCK_SIZE)"
  shows "read_body file_seed block_buffer (out, buf, sz, abs_offset) =
           (if length buf < n then Inl BufferOverflow
            else Inr (out @ take n (drop (unat abs_offset mod BLOCK_SIZE)
                                     (generate_block (block_nr abs_offset) file_seed)),
                      drop n buf, sz - of_nat n, abs_offset + of_nat n))"
    and "0 < n" and "n \<le> unat sz" and "n \<le> BLOCK_SIZE"
    and "n = (if intra_offset abs_offset = 0 \<and> of_nat BLOCK_SIZE \<le> sz then BLOCK_SIZE
              else min (unat sz) (BLOCK_SIZE - unat (intra_offset abs_offset)))"
proof -
  have pos: "0 < unat sz"
    using nz by (simp add: unat_gt_0)
  have md: "unat abs_offset mod BLOCK_SIZE < BLOCK_SIZE"
    using BLOCK_SIZE_pos by simp
  show "0 < n" and "n \<le> unat sz" and "n \<le> BLOCK_SIZE"
    using pos md by (simp_all add: n_def)
  have io: "intra_offset abs_offset = 0 \<longleftrightarrow> unat abs_offset mod BLOCK_SIZE = 0"
    using intra_offset_unat [of abs_offset] by (simp add: unat_eq_0 flip: unat_0_iff)
  show alt: "n = (if intra_offset abs_offset = 0 \<and> of_nat BLOCK_SIZE \<le> sz then BLOCK_SIZE
              else min (unat sz) (BLOCK_SIZE - unat (intra_offset abs_offset)))"
    by (auto simp add: n_def io intra_offset_unat word_le_nat_alt unat_BLOCK_SIZE)
  show "read_body file_seed block_buffer (out, buf, sz, abs_offset) =
           (if length buf < n then Inl BufferOverflow
            else Inr (out @ take n (drop (unat abs_offset mod BLOCK_SIZE)
                                     (generate_block (block_nr abs_offset) file_seed)),
                      drop n buf, sz - of_nat n, abs_offset + of_nat n))"
  proof (cases "intra_offset abs_offset = 0 \<and> of_nat BLOCK_SIZE \<le> sz")
    case True
    then have n: "n = BLOCK_SIZE" and al: "unat abs_offset mod BLOCK_SIZE = 0"
      using alt io by simp_all
    have tk: "length (take BLOCK_SIZE buf) = BLOCK_SIZE" if "\<not> length buf < BLOCK_SIZE"
      using that by simp
    show ?thesis
      using True
      by (simp add: read_body_def Let_def n al get_block_generate tk generate_block_length)
  next
    case False
    let ?room = "of_nat BLOCK_SIZE - ucast (intra_offset abs_offset) :: u64"
    let ?bytes = "if sz < ?room then sz else ?room"
    have ur: "unat ?room = BLOCK_SIZE - unat abs_offset mod BLOCK_SIZE"
      by (rule bytes_unat)
    have n: "unat ?bytes = n"
      by (simp add: n_def ur word_less_nat_alt)
    have b: "?bytes = of_nat n"
      unfolding n [symmetric] by simp
    have "read_body file_seed block_buffer (out, buf, sz, abs_offset) =
           (if length buf < unat ?bytes then Inl BufferOverflow
            else Inr (out @ take (unat ?bytes) (drop (unat (intra_offset abs_offset))
                                     (get_block (block_nr abs_offset) block_buffer file_seed)),
                      drop (unat ?bytes) buf, sz - ?bytes, abs_offset + ?bytes))"
      using False by (simp only: read_body_def Let_def prod.case if_False simp_thms)
    then show ?thesis
      by (simp only: n get_block_generate [OF bb] intra_offset_unat) (simp only: b)
  qed
qed

lemma unat_sub_of_nat:
  fixes sz :: u64
  assumes "n \<le> unat sz"
  shows "unat (sz - of_nat n) = unat sz - n"
proof -
  have "unat sz < 2 ^ 64"
    using unsigned_less [of sz] by simp
  with assms have "n < 2 ^ 64"
    by simp
  then have n: "unat (of_nat n :: u64) = n"
    by (simp add: unat_of_nat)
  with assms have "(of_nat n :: u64) \<le> sz"
    by (simp add: word_le_nat_alt)
  then show ?thesis
    by (simp add: unat_sub n)
qed

lemma read_loop_buffers:
  assumes bb1: "length bb1 = BLOCK_SIZE" and bb2: "length bb2 = BLOCK_SIZE"
    and len: "length buf1 = length buf2"
  shows "(read_loop file_seed bb1 (out, buf1, sz, abs_offset) = Inl BufferOverflow
          \<and> read_loop file_seed bb2 (out, buf2, sz, abs_offset) = Inl BufferOverflow)
       \<or> (\<exists>out' n fin.
            read_loop file_seed bb1 (out, buf1, sz, abs_offset) = Inr (out', drop n buf1, 0, fin)
          \<and> read_loop file_seed bb2 (out, buf2, sz, abs_offset) = Inr (out', drop n buf2, 0, fin))"
  using len
proof (induction "unat sz" arbitrary: out buf1 buf2 sz abs_offset rule: less_induct)
  case less
  show ?case
  proof (cases "sz = 0")
    case True
    have "read_loop file_seed bb1 (out, buf1, sz, abs_offset) = Inr (out, drop 0 buf1, 0, abs_offset)"
      and "read_loop file_seed bb2 (out, buf2, sz, abs_offset) = Inr (out, drop 0 buf2, 0, abs_offset)"
      using True by (simp_all add: read_loop.simps)
    then show ?thesis
      by blast
  next
    case False
    define n where "n = min (unat sz) (BLOCK_SIZE - unat abs_offset mod BLOCK_SIZE)"
    define out' where "out' = out @ take n (drop (unat abs_offset mod BLOCK_SIZE)
                                     (generate_block (block_nr abs_offset) file_seed))"
    have b1: "read_body file_seed bb1 (out, buf1, sz, abs_offset) =
           (if length buf1 < n then Inl BufferOverflow
            else Inr (out', drop n buf1, sz - of_nat n, abs_offset + of_nat n))"
      unfolding n_def out'_def by (rule read_body_shape(1) [OF bb1 False])
    have b2: "read_body file_seed bb2 (out, buf2, sz, abs_offset) =
           (if length buf2 < n then Inl BufferOverflow
            else Inr (out', drop n buf2, sz - of_nat n, abs_offset + of_nat n))"
      unfolding n_def out'_def by (rule read_body_shape(1) [OF bb2 False])
    have n0: "0 < n" and nle: "n \<le> unat sz"
      unfolding n_def by (rule read_body_shape(2,3) [OF bb1 False])+
    show ?thesis
    proof (cases "length buf1 < n")
      case True
      then have "read_loop file_seed bb1 (out, buf1, sz, abs_offset) = Inl BufferOverflow"
        and "read_loop file_seed bb2 (out, buf2, sz, abs_offset) = Inl BufferOverflow"
        using False less.prems
        by (simp_all add: read_loop.simps [of _ _ out _ sz abs_offset] b1 b2)
      then show ?thesis
        by blast
    next
      case room: False
      have r1: "read_loop file_seed bb1 (out, buf1, sz, abs_offset) =
                  read_loop file_seed bb1 (out', drop n buf1, sz - of_nat n, abs_offset + of_nat n)"
        and r2: "read_loop file_seed bb2 (out, buf2, sz, abs_offset) =
                  read_loop file_seed bb2 (out', drop n buf2, sz - of_nat n, abs_offset + of_nat n)"
        using False room less.prems
        by (simp_all add: read_loop.simps [of _ _ out _ sz abs_offset] b1 b2)
      have lt: "unat (sz - of_nat n) < unat sz"
        using n0 nle by (simp add: unat_sub_of_nat)
      have len': "length (drop n buf1) = length (drop n buf2)"
        using less.prems by simp
      from less.hyps [OF lt len', of out' "abs_offset + of_nat n"]
      consider (fault)
          "read_loop file_seed bb1 (out', drop n buf1, sz - of_nat n, abs_offset + of_nat n)
             = Inl BufferOverflow"
          "read_loop file_seed bb2 (out', drop n buf2, sz - of_nat n, abs_offset + of_nat n)
             = Inl BufferOverflow"
        | (ok) out'' m fin where
          "read_loop file_seed bb1 (out', drop n buf1, sz - of_nat n, abs_offset + of_nat n)
             = Inr (out'', drop m (drop n buf1), 0, fin)"
          "read_loop file_seed bb2 (out', drop n buf2, sz - of_nat n, abs_offset + of_nat n)
             = Inr (out'', drop m (drop n buf2), 0, fin)"
        by blast
      then show ?thesis
      proof cases
        case fault
        then show ?thesis
          by (simp only: r1 r2) simp
      next
        case ok
        then have "read_loop file_seed bb1 (out, buf1, sz, abs_offset)
                     = Inr (out'', drop (m + n) buf1, 0, fin)"
          and "read_loop file_seed bb2 (out, buf2, sz, abs_offset)
                     = Inr (out'', drop (m + n) buf2, 0, fin)"
          by (simp_all only: r1 r2 drop_drop)
        then show ?thesis
          by blast
      qed
    qed
  qed
qed

lemma read_loop_total:
  assumes bb: "length block_buffer = BLOCK_SIZE"
    and cap: "unat sz \<le> length buf"
  shows "\<exists>out' fin.
           read_loop file_seed block_buffer (out, buf, sz, abs_offset)
             = Inr (out', drop (unat sz) buf, 0, fin)
           \<and> length out' = length out + unat sz"
  using cap
proof (induction "unat sz" arbitrary: out buf sz abs_offset rule: less_induct)
  case less
  show ?case
  proof (cases "sz = 0")
    case True
    then show ?thesis
      by (simp add: read_loop.simps)
  next
    case False
    define n where "n = min (unat sz) (BLOCK_SIZE - unat abs_offset mod BLOCK_SIZE)"
    define out' where "out' = out @ take n (drop (unat abs_offset mod BLOCK_SIZE)
                                     (generate_block (block_nr abs_offset) file_seed))"
    have b: "read_body file_seed block_buffer (out, buf, sz, abs_offset) =
           (if length buf < n then Inl BufferOverflow
            else Inr (out', drop n buf, sz - of_nat n, abs_offset + of_nat n))"
      unfolding n_def out'_def by (rule read_body_shape(1) [OF bb False])
    have n0: "0 < n" and nle: "n \<le> unat sz"
      unfolding n_def by (rule read_body_shape(2,3) [OF bb False])+
    have room: "\<not> length buf < n"
      using nle less.prems by simp
    have lo: "length out' = length out + n"
      by (simp add: out'_def generate_block_length) (simp add: n_def)
    have s': "unat (sz - of_nat n) = unat sz - n"
      using nle by (rule unat_sub_of_nat)
    have lt: "unat (sz - of_nat n) < unat sz"
      using n0 nle by (simp add: s')
    have cap': "unat (sz - of_nat n) \<le> length (drop n buf)"
      using less.prems by (simp add: s')
    have r: "read_loop file_seed block_buffer (out, buf, sz, abs_offset) =
               read_loop file_seed block_buffer (out', drop n buf, sz - of_nat n, abs_offset + of_nat n)"
      using False room by (simp add: read_loop.simps [of _ _ out _ sz abs_offset] b)
    from less.hyps [OF lt cap', of out' "abs_offset + of_nat n"]
    show ?thesis
      using nle by (auto simp add: r s' lo add.commute)
  qed
qed

lemma fop_read_total:
  assumes reg: "lookup testfile_list (skip_slash path) = Some testfile"
    and bb: "length block_buffer = BLOCK_SIZE"
    and cap: "unat (if abs_offset + sz > size_f testfile
                    then size_f testfile - abs_offset else sz) \<le> length buf"
  shows "\<exists>out.
           fop_read testfile_list path buf block_buffer sz abs_offset =
             Inr (sint (ucast (if abs_offset + sz > size_f testfile
                               then size_f testfile - abs_offset else sz) :: 32 word),
                  out,
                  drop (unat (if abs_offset + sz > size_f testfile
                              then size_f testfile - abs_offset else sz)) buf)
           \<and> length out = unat (if abs_offset + sz > size_f testfile
                                  then size_f testfile - abs_offset else sz)"
proof -
  let ?sz = "if abs_offset + sz > size_f testfile then size_f testfile - abs_offset else sz"
  from read_loop_total [OF bb cap, of "seed testfile" "[]" abs_offset]
  obtain out fin where
    "read_loop (seed testfile) block_buffer ([], buf, ?sz, abs_offset) =
       Inr (out, drop (unat ?sz) buf, 0, fin)"
    and "length out = unat ?sz"
    by auto
  then show ?thesis
    by (simp add: fop_read_def reg Let_def)
qed

section \<open>Distinct seeds of the generator give distinct blocks\<close>

lemma le_word_le_bytes:
  "le_word (ucast v) (ucast (drop_bit 8 v)) (ucast (drop_bit 16 v)) (ucast (drop_bit 24 v)) = v"
  unfolding le_word_def
proof (rule bit_eqI)
  fix n
  assume "possible_bit TYPE(u32) n"
  then have "n < 32"
    by (simp add: possible_bit_def)
  then consider "n < 8" | "8 \<le> n" "n < 16" | "16 \<le> n" "n < 24" | "24 \<le> n" "n < 32"
    by linarith
  then show "bit (ucast (ucast v :: u8) OR push_bit 8 (ucast (ucast (drop_bit 8 v) :: u8))
                OR push_bit 16 (ucast (ucast (drop_bit 16 v) :: u8))
                OR push_bit 24 (ucast (ucast (drop_bit 24 v) :: u8)) :: u32) n
           \<longleftrightarrow> bit v n"
    by cases (auto simp add: bit_simps)
qed

lemma le_bytes_inj: "le_bytes v = le_bytes v' \<Longrightarrow> v = v'"
proof -
  assume "le_bytes v = le_bytes v'"
  then have "le_word (ucast v) (ucast (drop_bit 8 v)) (ucast (drop_bit 16 v)) (ucast (drop_bit 24 v))
           = le_word (ucast v') (ucast (drop_bit 8 v')) (ucast (drop_bit 16 v')) (ucast (drop_bit 24 v'))"
    by (simp add: le_bytes_def)
  then show ?thesis
    by (simp only: le_word_le_bytes)
qed

lemma xor_cancel: "a XOR b = 0 \<Longrightarrow> a = b" for a b :: u32
proof -
  assume d: "a XOR b = 0"
  have "b = a XOR (a XOR b)"
    by (simp flip: xor.assoc)
  also have "\<dots> = a"
    by (simp only: d) simp
  finally show ?thesis
    by simp
qed

lemma xor_push_inj:
  fixes x x' :: u32
  assumes "x XOR push_bit 11 x = x' XOR push_bit 11 x'"
  shows "x = x'"
proof -
  define d where "d = x XOR x'"
  have "(x XOR push_bit 11 x) XOR (x' XOR push_bit 11 x') = 0"
    using assms by simp
  then have "d XOR push_bit 11 d = 0"
    by (simp add: d_def ac_simps del: push_bit_Suc)
  then have e: "d = push_bit 11 d"
    by (rule xor_cancel)
  have "d = push_bit 11 (push_bit 11 (push_bit 11 d))"
    using e by simp
  then have "d = 0"
    by simp
  then show ?thesis
    unfolding d_def by (rule xor_cancel)
qed

lemma xor_drop_inj:
  fixes t t' :: u32
  assumes "t XOR drop_bit 8 t = t' XOR drop_bit 8 t'"
  shows "t = t'"
proof -
  define d where "d = t XOR t'"
  have "(t XOR drop_bit 8 t) XOR (t' XOR drop_bit 8 t') = 0"
    using assms by simp
  then have "d XOR drop_bit 8 d = 0"
    by (simp add: d_def ac_simps)
  then have e: "d = drop_bit 8 d"
    by (rule xor_cancel)
  have "d = drop_bit 8 (drop_bit 8 (drop_bit 8 (drop_bit 8 d)))"
    using e by simp
  then have "d = 0"
    by simp
  then show ?thesis
    unfolding d_def by (rule xor_cancel)
qed

lemma block_words_Cons:
  "block_words block file_seed =
     emitted (xorshift_step (crc global_seed file_seed block, 362436069, 521288629, 88675123))
     # xorshift_words (BLOCK_SIZE div 4 - 1)
         (xorshift_step (crc global_seed file_seed block, 362436069, 521288629, 88675123))"
proof -
  have "BLOCK_SIZE div 4 = Suc (BLOCK_SIZE div 4 - 1)"
    by (simp add: BLOCK_SIZE_def)
  then have "xorshift_words (BLOCK_SIZE div 4) st
               = emitted (xorshift_step st) # xorshift_words (BLOCK_SIZE div 4 - 1) (xorshift_step st)"
    for st
    by (metis xorshift_words.simps(2))
  then show ?thesis
    by (simp only: block_words_def)
qed

lemma xor_left_cancel: "a XOR b = a XOR c \<Longrightarrow> b = c" for a b c :: u32
proof -
  assume "a XOR b = a XOR c"
  then have "a XOR (a XOR b) = a XOR (a XOR c)"
    by (rule arg_cong)
  then show ?thesis
    by (simp only: bit.xor_left_self)
qed

lemma first_word_inj:
  assumes "emitted (xorshift_step (x, y, z, w)) = emitted (xorshift_step (x', y, z, w))"
  shows "x = x'"
proof -
  let ?t = "x XOR push_bit 11 x" and ?t' = "x' XOR push_bit 11 x'"
  from assms have "w XOR (drop_bit 19 w XOR (?t XOR drop_bit 8 ?t))
                 = w XOR (drop_bit 19 w XOR (?t' XOR drop_bit 8 ?t'))"
    by (simp only: xorshift_step_def emitted_def Let_def prod.case)
  then have "drop_bit 19 w XOR (?t XOR drop_bit 8 ?t) = drop_bit 19 w XOR (?t' XOR drop_bit 8 ?t')"
    by (rule xor_left_cancel)
  then have "?t XOR drop_bit 8 ?t = ?t' XOR drop_bit 8 ?t'"
    by (rule xor_left_cancel)
  then have "?t = ?t'"
    by (rule xor_drop_inj)
  then show ?thesis
    by (rule xor_push_inj)
qed

lemma generate_block_inj:
  assumes "generate_block block file_seed = generate_block block' file_seed"
  shows "block = block'"
proof -
  let ?st = "\<lambda>b. (crc global_seed file_seed b, 362436069 :: u32, 521288629 :: u32, 88675123 :: u32)"
  from assms have "take 4 (bytes_of_words (block_words block file_seed))
                 = take 4 (bytes_of_words (block_words block' file_seed))"
    by (simp only: generate_block_words)
  then have "le_bytes (emitted (xorshift_step (?st block)))
           = le_bytes (emitted (xorshift_step (?st block')))"
    by (simp add: block_words_Cons bytes_of_words_def le_bytes_def)
  then have "emitted (xorshift_step (?st block)) = emitted (xorshift_step (?st block'))"
    by (rule le_bytes_inj)
  then have "crc global_seed file_seed block = crc global_seed file_seed block'"
    by (rule first_word_inj)
  then show ?thesis
    by (rule crc_inj_block)
qed

section \<open>Block number, offset in the block and content repeat every \<open>2\<^sup>4\<^sup>8\<close> bytes\<close>

lemma block_nr_unat_bits: "unat (block_nr a) = drop_bit 16 (take_bit 48 (unat a))"
  by (simp add: block_nr_drop_bit BLOCK_SHIFT_def unsigned_ucast_eq unat_drop_bit_eq
      drop_bit_take_bit)

lemma block_nr_period: "block_nr (abs_offset + 0x1000000000000) = block_nr abs_offset"
proof -
  have p: "(0x1000000000000 :: u64) = 2 ^ 48"
    by simp
  have u: "unat (2 ^ 48 :: u64) = 2 ^ 48"
    by simp
  have "unat (abs_offset + 2 ^ 48) = take_bit 64 (unat abs_offset + 2 ^ 48)"
    by (simp only: unat_word_ariths(1) u take_bit_eq_mod) simp
  then have "take_bit 48 (unat (abs_offset + 2 ^ 48)) = take_bit 48 (unat abs_offset + 2 ^ 48)"
    by (simp only: take_bit_take_bit)
  also have "\<dots> = take_bit 48 (take_bit 48 (unat abs_offset) + take_bit 48 (2 ^ 48 :: nat))"
    by (rule take_bit_add [symmetric])
  also have "\<dots> = take_bit 48 (unat abs_offset)"
    by (simp only: take_bit_of_exp) simp
  finally have "unat (block_nr (abs_offset + 2 ^ 48)) = unat (block_nr abs_offset)"
    by (simp only: block_nr_unat_bits)
  then show ?thesis
    by (simp only: p word_unat_eq_iff)
qed

lemma unat_add_period:
  "unat (abs_offset + 0x1000000000000 :: u64) = take_bit 64 (unat abs_offset + 2 ^ 48)"
proof -
  have p: "(0x1000000000000 :: u64) = 2 ^ 48"
    by simp
  have u: "unat (2 ^ 48 :: u64) = 2 ^ 48"
    by simp
  show ?thesis
    by (simp only: p unat_word_ariths(1) u take_bit_eq_mod) simp
qed

lemma intra_offset_period:
  "intra_offset (abs_offset + 0x1000000000000) = intra_offset abs_offset"
proof -
  have m: "n mod BLOCK_SIZE = take_bit 16 n" for n :: nat
    by (simp add: BLOCK_SIZE_def take_bit_eq_mod)
  have "take_bit 16 (unat (abs_offset + 0x1000000000000)) = take_bit 16 (unat abs_offset + 2 ^ 48)"
    by (simp only: unat_add_period take_bit_take_bit)
  also have "\<dots> = take_bit 16 (take_bit 16 (unat abs_offset) + take_bit 16 (2 ^ 48 :: nat))"
    by (rule take_bit_add [symmetric])
  also have "\<dots> = take_bit 16 (unat abs_offset)"
    by (simp only: take_bit_of_exp) simp
  finally have "unat (intra_offset (abs_offset + 0x1000000000000)) = unat (intra_offset abs_offset)"
    by (simp only: intra_offset_unat m)
  then show ?thesis
    by (simp only: word_unat_eq_iff)
qed

lemma byte_at_period: "byte_at file_seed (pos + 2 ^ 48) = byte_at file_seed pos"
proof -
  have e: "(2 :: nat) ^ 48 = 2 ^ 32 * BLOCK_SIZE"
    by (simp add: BLOCK_SIZE_def)
  have dv: "(pos + 2 ^ 48) div BLOCK_SIZE = 2 ^ 32 + pos div BLOCK_SIZE"
    by (subst e, subst div_mult_self1) (use BLOCK_SIZE_pos in simp_all)
  have md: "(pos + 2 ^ 48) mod BLOCK_SIZE = pos mod BLOCK_SIZE"
    by (subst e) simp
  have w: "(of_nat (2 ^ 32 + pos div BLOCK_SIZE) :: u32) = of_nat (pos div BLOCK_SIZE)"
    by simp
  show ?thesis
    by (simp only: byte_at_def dv md w)
qed

lemma bytes_period:
  "map (byte_at file_seed) [pos + 2 ^ 48..<pos + 2 ^ 48 + n] = map (byte_at file_seed) [pos..<pos + n]"
proof (rule nth_equalityI)
  show "length (map (byte_at file_seed) [pos + 2 ^ 48..<pos + 2 ^ 48 + n])
          = length (map (byte_at file_seed) [pos..<pos + n])"
    by simp
next
  fix j
  assume "j < length (map (byte_at file_seed) [pos + 2 ^ 48..<pos + 2 ^ 48 + n])"
  then have j: "j < n"
    by simp
  have "byte_at file_seed (pos + 2 ^ 48 + j) = byte_at file_seed (pos + j)"
    using byte_at_period [of file_seed "pos + j"] by (simp add: add.assoc add.commute add.left_commute)
  with j show "map (byte_at file_seed) [pos + 2 ^ 48..<pos + 2 ^ 48 + n] ! j
                 = map (byte_at file_seed) [pos..<pos + n] ! j"
    by simp
qed

lemma fop_read_period:
  assumes reg: "lookup testfile_list (skip_slash path) = Some testfile"
    and bb: "length block_buffer = BLOCK_SIZE"
    and cap: "unat sz \<le> length buf"
    and inrange: "unat abs_offset + 2 ^ 48 + unat sz \<le> unat (size_f testfile)"
  shows "fop_read testfile_list path buf block_buffer sz (abs_offset + 0x1000000000000)
           = fop_read testfile_list path buf block_buffer sz abs_offset"
    and "fop_read testfile_list path buf block_buffer sz abs_offset
           = Inr (sint (ucast sz :: 32 word),
                  map (byte_at (seed testfile)) [unat abs_offset..<unat abs_offset + unat sz],
                  drop (unat sz) buf)"
proof -
  let ?far = "abs_offset + 0x1000000000000"
  have lim: "unat (size_f testfile) < 2 ^ 64"
    using unsigned_less [of "size_f testfile"] by simp
  have "unat abs_offset + 2 ^ 48 < (2 :: nat) ^ 64"
    using inrange lim by simp
  then have far: "unat ?far = unat abs_offset + 2 ^ 48"
    by (simp only: unat_add_period take_bit_nat_eq_self)
  have le1: "unat abs_offset \<le> unat (size_f testfile)"
    and le2: "unat ?far \<le> unat (size_f testfile)"
    using inrange by (simp_all add: far)
  have nw1: "unat abs_offset + unat sz < 2 ^ 64"
    and nw2: "unat ?far + unat sz < 2 ^ 64"
    using inrange lim by (simp_all add: far)
  have n1: "min (unat sz) (unat (size_f testfile) - unat abs_offset) = unat sz"
    and n2: "min (unat sz) (unat (size_f testfile) - unat ?far) = unat sz"
    using inrange by (simp_all add: far)
  have c1: "min (unat sz) (unat (size_f testfile) - unat abs_offset) \<le> length buf"
    and c2: "min (unat sz) (unat (size_f testfile) - unat ?far) \<le> length buf"
    using cap by (simp_all only: n1 n2)
  have "unat (abs_offset + sz) \<le> unat (size_f testfile)"
    using inrange by (simp only: unat_add_nowrap [OF nw1])
  then have k1: "(if abs_offset + sz > size_f testfile
                  then size_f testfile - abs_offset else sz) = sz"
    by (simp add: word_less_nat_alt)
  have "unat (?far + sz) \<le> unat (size_f testfile)"
    using inrange by (simp only: unat_add_nowrap [OF nw2] far)
  then have k2: "(if ?far + sz > size_f testfile
                  then size_f testfile - ?far else sz) = sz"
    by (simp add: word_less_nat_alt)
  show near: "fop_read testfile_list path buf block_buffer sz abs_offset
           = Inr (sint (ucast sz :: 32 word),
                  map (byte_at (seed testfile)) [unat abs_offset..<unat abs_offset + unat sz],
                  drop (unat sz) buf)"
    using fop_read_ok [OF reg bb le1 nw1 c1] by (simp only: n1 k1)
  have "fop_read testfile_list path buf block_buffer sz ?far
           = Inr (sint (ucast sz :: 32 word),
                  map (byte_at (seed testfile)) [unat ?far..<unat ?far + unat sz],
                  drop (unat sz) buf)"
    using fop_read_ok [OF reg bb le2 nw2 c2] by (simp only: n2 k2)
  then show "fop_read testfile_list path buf block_buffer sz ?far
           = fop_read testfile_list path buf block_buffer sz abs_offset"
    by (simp only: near far bytes_period)
qed

section \<open>Values of the model on the first blocks of a file with seed 1\<close>

lemma crc_values:
  "crc global_seed 1 0 = 3519577204"
  "crc global_seed 1 1 = 3574161859"
  by code_simp+

lemma first_words_of_block_0:
  "xorshift_words 4 (3519577204, 362436069, 521288629, 88675123)
     = [2549146674, 1342357076, 3728992370, 2480842754]"
  by code_simp

lemma first_bytes_of_block_0:
  "bytes_of_words [2549146674, 1342357076] = [50, 228, 240, 151, 84, 190, 2, 80]"
  by (simp add: bytes_of_words_def le_bytes_def)

section \<open>The claims\<close>

subsection \<open>C1: reads agree with the block generator\<close>

text \<open>
  C1: for a registered file and a request within the file, given the caller's buffer of at
  least \<open>size\<close> bytes, \<^verbatim>\<open>fop_read\<close> stores exactly the bytes found at
  \<open>[offset, offset + length)\<close> in the concatenation of the blocks that cover that range,
  each produced by the block generator, and leaves the rest of the buffer alone. With seed 1,
  reading \<open>[65530, 65542)\<close> gives the last 6 bytes of block 0 followed by the first 6 bytes
  of block 1.
\<close>

theorem read_generate_consistency:
  assumes reg: "lookup testfile_list (skip_slash path) = Some testfile"
    and bb: "length block_buffer = BLOCK_SIZE"
    and cap: "unat sz \<le> length buf"
    and inrange: "unat abs_offset + unat sz \<le> unat (size_f testfile)"
  shows "fop_read testfile_list path buf block_buffer sz abs_offset
           = Inr (sint (ucast sz :: 32 word),
                  take (unat sz) (drop (unat abs_offset)
                    (blocks_upto (seed testfile) (blocks_covering (unat abs_offset + unat sz)))),
                  drop (unat sz) buf)
       \<and> (seed testfile = 1 \<and> abs_offset = 65530 \<and> sz = 12 \<longrightarrow>
            take (unat sz) (drop (unat abs_offset)
              (blocks_upto (seed testfile) (blocks_covering (unat abs_offset + unat sz))))
            = drop (BLOCK_SIZE - 6) (generate_block 0 1) @ take 6 (generate_block 1 1))"
proof -
  let ?out = "map (byte_at (seed testfile)) [unat abs_offset..<unat abs_offset + unat sz]"
  have le: "unat abs_offset \<le> unat (size_f testfile)"
    using inrange by simp
  have "unat (size_f testfile) < 2 ^ 64"
    using unsigned_less [of "size_f testfile"] by simp
  with inrange have nowrap: "unat abs_offset + unat sz < 2 ^ 64"
    by simp
  have n: "min (unat sz) (unat (size_f testfile) - unat abs_offset) = unat sz"
    using inrange by simp
  have cap': "min (unat sz) (unat (size_f testfile) - unat abs_offset) \<le> length buf"
    using cap by (simp only: n)
  have "unat (abs_offset + sz) \<le> unat (size_f testfile)"
    using inrange by (simp only: unat_add_nowrap [OF nowrap])
  then have nc: "(if abs_offset + sz > size_f testfile
                  then size_f testfile - abs_offset else sz) = sz"
    by (simp add: word_less_nat_alt)
  have run: "fop_read testfile_list path buf block_buffer sz abs_offset =
      Inr (sint (ucast sz :: 32 word), ?out, drop (unat sz) buf)"
    using fop_read_ok [OF reg bb le nowrap cap'] by (simp only: n nc)
  have cover: "?out = take (unat sz) (drop (unat abs_offset)
      (blocks_upto (seed testfile) (blocks_covering (unat abs_offset + unat sz))))"
    by (rule blocks_upto_slice [symmetric]) (rule blocks_covering_le)
  have inst: "?out = drop (BLOCK_SIZE - 6) (generate_block 0 1) @ take 6 (generate_block 1 1)"
    if "seed testfile = 1" and "abs_offset = 65530" and "sz = 12"
  proof -
    have a: "take 6 (drop (65530 mod BLOCK_SIZE) (generate_block (of_nat (65530 div BLOCK_SIZE)) 1))
               = map (byte_at 1) [65530..<65530 + 6]"
      by (rule block_slice) (simp add: BLOCK_SIZE_def)
    have b: "take 6 (drop (65536 mod BLOCK_SIZE) (generate_block (of_nat (65536 div BLOCK_SIZE)) 1))
               = map (byte_at 1) [65536..<65536 + 6]"
      by (rule block_slice) (simp add: BLOCK_SIZE_def)
    have "[65530..<65530 + 12] = [65530..<65530 + 6] @ [65536..<65536 + (6 :: nat)]"
      using upt_add_eq_append [of 65530 65536 6] by simp
    then have "map (byte_at 1) [65530..<65530 + 12]
                 = map (byte_at 1) [65530..<65530 + 6] @ map (byte_at 1) [65536..<65536 + 6]"
      by (simp only: map_append)
    also have "\<dots> = take 6 (drop 65530 (generate_block 0 1)) @ take 6 (generate_block 1 1)"
      using a b by (simp add: BLOCK_SIZE_def)
    also have "take 6 (drop 65530 (generate_block 0 1)) = drop (BLOCK_SIZE - 6) (generate_block 0 1)"
      by (simp add: generate_block_length BLOCK_SIZE_def)
    finally show ?thesis
      using that by simp
  qed
  show ?thesis
  proof (intro conjI impI)
    show "fop_read testfile_list path buf block_buffer sz abs_offset
           = Inr (sint (ucast sz :: 32 word),
                  take (unat sz) (drop (unat abs_offset)
                    (blocks_upto (seed testfile) (blocks_covering (unat abs_offset + unat sz)))),
                  drop (unat sz) buf)"
      using run by (simp only: cover)
  next
    assume "seed testfile = 1 \<and> abs_offset = 65530 \<and> sz = 12"
    then have "?out = drop (BLOCK_SIZE - 6) (generate_block 0 1) @ take 6 (generate_block 1 1)"
      using inst by blast
    then show "take (unat sz) (drop (unat abs_offset)
              (blocks_upto (seed testfile) (blocks_covering (unat abs_offset + unat sz))))
            = drop (BLOCK_SIZE - 6) (generate_block 0 1) @ take 6 (generate_block 1 1)"
      by (simp only: cover)
  qed
qed

theorem read_generate_consistency_witness:
  "lookup [\<lparr>name = ''testfile_1M'', size_f = 1048576, seed = 1\<rparr>] (skip_slash ''/testfile_1M'')
     = Some \<lparr>name = ''testfile_1M'', size_f = 1048576, seed = 1\<rparr>
   \<and> length (replicate BLOCK_SIZE (0 :: u8)) = BLOCK_SIZE
   \<and> unat (12 :: u64) \<le> length (replicate 12 (0 :: u8))
   \<and> unat (65530 :: u64) + unat (12 :: u64) \<le> unat (1048576 :: u64)
   \<and> fop_read [\<lparr>name = ''testfile_1M'', size_f = 1048576, seed = 1\<rparr>] ''/testfile_1M''
         (replicate 12 0) (replicate BLOCK_SIZE 0) 12 65530
       = Inr (12, drop (BLOCK_SIZE - 6) (generate_block 0 1) @ take 6 (generate_block 1 1), [])"
proof -
  let ?f = "\<lparr>name = ''testfile_1M'', size_f = 1048576, seed = 1\<rparr>"
  have reg: "lookup [?f] (skip_slash ''/testfile_1M'') = Some ?f"
    by (simp add: lookup_def skip_slash_def)
  have bb: "length (replicate BLOCK_SIZE (0 :: u8)) = BLOCK_SIZE"
    by simp
  have cap: "unat (12 :: u64) \<le> length (replicate 12 (0 :: u8))"
    by simp
  have inrange: "unat (65530 :: u64) + unat (12 :: u64) \<le> unat (size_f ?f)"
    by simp
  from read_generate_consistency [OF reg bb cap inrange]
  show ?thesis
    using reg by simp
qed

subsection \<open>C2: determinism\<close>

text \<open>
  C2: the block that \<^verbatim>\<open>get_block\<close> produces for a block index and a file seed does not
  depend on what the destination held before, and two reads of the same request, whatever
  the caller's buffers and the local block buffer held before (buffers of the same size),
  return the same value and store the same bytes.
\<close>

theorem reads_are_deterministic:
  assumes bb1: "length block_buffer = BLOCK_SIZE" and bb2: "length block_buffer' = BLOCK_SIZE"
    and len: "length buf = length buf'"
  shows "get_block block block_buffer file_seed = get_block block block_buffer' file_seed
       \<and> map_sum id (\<lambda>(ret, out, rest). (ret, out))
             (fop_read testfile_list path buf block_buffer sz abs_offset)
         = map_sum id (\<lambda>(ret, out, rest). (ret, out))
             (fop_read testfile_list path buf' block_buffer' sz abs_offset)"
proof
  show "get_block block block_buffer file_seed = get_block block block_buffer' file_seed"
    by (simp only: get_block_generate [OF bb1] get_block_generate [OF bb2])
next
  show "map_sum id (\<lambda>(ret, out, rest). (ret, out))
             (fop_read testfile_list path buf block_buffer sz abs_offset)
         = map_sum id (\<lambda>(ret, out, rest). (ret, out))
             (fop_read testfile_list path buf' block_buffer' sz abs_offset)"
  proof (cases "lookup testfile_list (skip_slash path)")
    case None
    then show ?thesis
      by (simp add: fop_read_def)
  next
    case (Some testfile)
    let ?sz = "if abs_offset + sz > size_f testfile then size_f testfile - abs_offset else sz"
    from read_loop_buffers [OF bb1 bb2 len, of "seed testfile" "[]" ?sz abs_offset]
    show ?thesis
      by (auto simp add: fop_read_def Some Let_def)
  qed
qed

theorem reads_are_deterministic_witness:
  "length (replicate BLOCK_SIZE (0 :: u8)) = BLOCK_SIZE
   \<and> length (replicate BLOCK_SIZE (255 :: u8)) = BLOCK_SIZE
   \<and> length (replicate 12 (0 :: u8)) = length (replicate 12 (170 :: u8))
   \<and> get_block 3 (replicate BLOCK_SIZE 0) 1 = get_block 3 (replicate BLOCK_SIZE 255) 1
   \<and> map_sum id (\<lambda>(ret, out, rest). (ret, out))
         (fop_read [\<lparr>name = ''f'', size_f = 1048576, seed = 1\<rparr>] ''/f''
            (replicate 12 0) (replicate BLOCK_SIZE 0) 12 65530)
     = map_sum id (\<lambda>(ret, out, rest). (ret, out))
         (fop_read [\<lparr>name = ''f'', size_f = 1048576, seed = 1\<rparr>] ''/f''
            (replicate 12 170) (replicate BLOCK_SIZE 255) 12 65530)"
proof -
  have bb1: "length (replicate BLOCK_SIZE (0 :: u8)) = BLOCK_SIZE"
    and bb2: "length (replicate BLOCK_SIZE (255 :: u8)) = BLOCK_SIZE"
    and len: "length (replicate 12 (0 :: u8)) = length (replicate 12 (170 :: u8))"
    by simp_all
  from reads_are_deterministic [OF bb1 bb2 len] bb1 bb2 len
  show ?thesis
    by blast
qed

subsection \<open>C3: a request at or beyond the end of the file\<close>

text \<open>
  C3 says that a request whose offset is at or beyond the file size returns no bytes. At the
  file size the code does so. Beyond it the subtraction \<^verbatim>\<open>testfile->size - abs_offset\<close>
  wraps around: for a file of 100 bytes and a request of 10 bytes at offset 200 the length
  becomes \<open>2\<^sup>6\<^sup>4 - 100\<close>, and the first pass of the loop copies 65336 bytes into the
  caller's 10 bytes.
\<close>

theorem read_beyond_size_overflows:
  "fop_read [\<lparr>name = ''f'', size_f = 100, seed = 1\<rparr>] ''/f''
        (replicate 10 0) (replicate BLOCK_SIZE 0) 10 100
     = Inr (0, [], replicate 10 0)
   \<and> (100 :: u64) - 200 = 0xFFFFFFFFFFFFFF9C
   \<and> fop_read [\<lparr>name = ''f'', size_f = 100, seed = 1\<rparr>] ''/f''
        (replicate 10 0) (replicate BLOCK_SIZE 0) 10 200
     = Inl BufferOverflow"
  by (simp add: fop_read_def lookup_def skip_slash_def Let_def read_loop.simps read_body_def
      intra_offset_def OFFSET_MASK_def BLOCK_SIZE_def)

subsection \<open>C4: clamping and the value returned\<close>

text \<open>
  C4, as stated: for every request that starts inside the file, the value returned is the
  clamped length and no error is signalled. This is false for a clamped length of \<open>2\<^sup>3\<^sup>1\<close>
  bytes or more: the length is returned through an \<^verbatim>\<open>int\<close>, and reading the first
  \<open>2\<^sup>3\<^sup>1\<close> bytes of a file of \<open>2\<^sup>3\<^sup>2\<close> bytes returns \<open>- 2\<^sup>3\<^sup>1\<close>. It is also false when offset
  plus length passes \<open>2\<^sup>6\<^sup>4\<close>: the sum wraps around, nothing is clamped, and a request of
  \<open>2\<^sup>6\<^sup>4 - 10\<close> bytes at offset 50 of a file of 100 bytes is served in full and returns
  \<open>- 10\<close>, where the clamped length is 50.
\<close>

theorem read_return_counterexample:
  "map_sum id fst
     (fop_read [\<lparr>name = ''f'', size_f = 0x100000000, seed = 1\<rparr>] ''/f''
        (replicate 2147483648 0) (replicate BLOCK_SIZE 0) 0x80000000 0)
   = Inr (- 2147483648)
   \<and> map_sum id fst
     (fop_read [\<lparr>name = ''g'', size_f = 100, seed = 1\<rparr>] ''/g''
        (replicate 18446744073709551606 0) (replicate BLOCK_SIZE 0) 0xFFFFFFFFFFFFFFF6 50)
   = Inr (- 10)"
proof
  let ?f = "\<lparr>name = ''f'', size_f = 0x100000000, seed = 1\<rparr>"
  have reg: "lookup [?f] (skip_slash ''/f'') = Some ?f"
    by (simp add: lookup_def skip_slash_def)
  have bb: "length (replicate BLOCK_SIZE (0 :: u8)) = BLOCK_SIZE"
    by simp
  have le: "unat (0 :: u64) \<le> unat (size_f ?f)"
    by simp
  have nowrap: "unat (0 :: u64) + unat (0x80000000 :: u64) < 2 ^ 64"
    by simp
  have cap: "min (unat (0x80000000 :: u64)) (unat (size_f ?f) - unat (0 :: u64))
               \<le> length (replicate 2147483648 (0 :: u8))"
    by simp
  show "map_sum id fst
     (fop_read [?f] ''/f'' (replicate 2147483648 0) (replicate BLOCK_SIZE 0) 0x80000000 0)
   = Inr (- 2147483648)"
    by (simp add: fop_read_ok [OF reg bb le nowrap cap])
next
  let ?g = "\<lparr>name = ''g'', size_f = 100, seed = 1\<rparr>"
  have reg: "lookup [?g] (skip_slash ''/g'') = Some ?g"
    by (simp add: lookup_def skip_slash_def)
  have bb: "length (replicate BLOCK_SIZE (0 :: u8)) = BLOCK_SIZE"
    by simp
  have sz: "(if (50 :: u64) + 0xFFFFFFFFFFFFFFF6 > size_f ?g
             then size_f ?g - 50 else 0xFFFFFFFFFFFFFFF6) = 0xFFFFFFFFFFFFFFF6"
    by simp
  have cap: "unat (if (50 :: u64) + 0xFFFFFFFFFFFFFFF6 > size_f ?g
                   then size_f ?g - 50 else 0xFFFFFFFFFFFFFFF6)
               \<le> length (replicate 18446744073709551606 (0 :: u8))"
    by (simp only: sz) simp
  from fop_read_total [OF reg bb cap]
  show "map_sum id fst
     (fop_read [?g] ''/g'' (replicate 18446744073709551606 0) (replicate BLOCK_SIZE 0)
        0xFFFFFFFFFFFFFFF6 50)
   = Inr (- 10)"
    by (simp only: sz) auto
qed

text \<open>
  C4, amended: for a request that starts inside the file, whose offset plus length does not
  wrap around \<open>2\<^sup>6\<^sup>4\<close> and whose clamped length is below \<open>2\<^sup>3\<^sup>1\<close>, given the caller's buffer
  of at least \<open>size\<close> bytes: the length is reduced to the file size minus the offset when
  the request runs past the end of the file, the call returns that length, not an error,
  and stores exactly that many bytes.
\<close>

theorem read_clamps_and_returns_length:
  assumes reg: "lookup testfile_list (skip_slash path) = Some testfile"
    and bb: "length block_buffer = BLOCK_SIZE"
    and below: "abs_offset < size_f testfile"
    and nowrap: "unat abs_offset + unat sz < 2 ^ 64"
    and small: "min (unat sz) (unat (size_f testfile) - unat abs_offset) < 2 ^ 31"
    and cap: "unat sz \<le> length buf"
  shows "\<exists>n out.
           n = (if unat abs_offset + unat sz > unat (size_f testfile)
                then unat (size_f testfile) - unat abs_offset else unat sz)
           \<and> fop_read testfile_list path buf block_buffer sz abs_offset
               = Inr (int n, out, drop n buf)
           \<and> length out = n"
proof -
  let ?n = "min (unat sz) (unat (size_f testfile) - unat abs_offset)"
  let ?sz = "if abs_offset + sz > size_f testfile then size_f testfile - abs_offset else sz"
  have le: "unat abs_offset \<le> unat (size_f testfile)"
    using below by (simp add: word_less_nat_alt)
  have cap': "?n \<le> length buf"
    using cap by simp
  have n: "unat ?sz = ?n"
    using le nowrap by (rule clamp_unat)
  have ret: "sint (ucast ?sz :: 32 word) = int ?n"
    using small sint_ucast_small [of ?sz] by (simp only: n)
  have eq: "?n = (if unat abs_offset + unat sz > unat (size_f testfile)
                then unat (size_f testfile) - unat abs_offset else unat sz)"
    using le by auto
  have "fop_read testfile_list path buf block_buffer sz abs_offset =
          Inr (int ?n, map (byte_at (seed testfile)) [unat abs_offset..<unat abs_offset + ?n],
               drop ?n buf)"
    using fop_read_ok [OF reg bb le nowrap cap'] by (simp only: ret)
  then show ?thesis
    using eq
    by (intro exI [of _ ?n]
          exI [of _ "map (byte_at (seed testfile)) [unat abs_offset..<unat abs_offset + ?n]"])
       simp
qed

theorem read_clamps_and_returns_length_witness:
  "lookup [\<lparr>name = ''f'', size_f = 100, seed = 1\<rparr>] (skip_slash ''/f'')
     = Some \<lparr>name = ''f'', size_f = 100, seed = 1\<rparr>
   \<and> length (replicate BLOCK_SIZE (0 :: u8)) = BLOCK_SIZE
   \<and> (99 :: u64) < 100
   \<and> unat (99 :: u64) + unat (10 :: u64) < 2 ^ 64
   \<and> min (unat (10 :: u64)) (unat (100 :: u64) - unat (99 :: u64)) < 2 ^ 31
   \<and> unat (10 :: u64) \<le> length (replicate 10 (0 :: u8))
   \<and> (\<exists>out. fop_read [\<lparr>name = ''f'', size_f = 100, seed = 1\<rparr>] ''/f''
                (replicate 10 0) (replicate BLOCK_SIZE 0) 10 99
              = Inr (1, out, replicate 9 0) \<and> length out = 1)"
proof -
  let ?f = "\<lparr>name = ''f'', size_f = 100, seed = 1\<rparr>"
  have reg: "lookup [?f] (skip_slash ''/f'') = Some ?f"
    by (simp add: lookup_def skip_slash_def)
  have bb: "length (replicate BLOCK_SIZE (0 :: u8)) = BLOCK_SIZE"
    by simp
  have below: "(99 :: u64) < size_f ?f"
    by simp
  have nowrap: "unat (99 :: u64) + unat (10 :: u64) < 2 ^ 64"
    by simp
  have small: "min (unat (10 :: u64)) (unat (size_f ?f) - unat (99 :: u64)) < 2 ^ 31"
    by simp
  have cap: "unat (10 :: u64) \<le> length (replicate 10 (0 :: u8))"
    by simp
  from read_clamps_and_returns_length [OF reg bb below nowrap small cap]
  show ?thesis
    using reg by auto
qed

subsection \<open>C5: when the block index enters the dividend\<close>




subsection \<open>C6: a block is a run of the xorshift generator\<close>

text \<open>
  C6: the block that \<^verbatim>\<open>get_block\<close> writes into a buffer of \<^verbatim>\<open>BLOCK_SIZE\<close> bytes consists of
  the \<open>BLOCK_SIZE / 4\<close> consecutive 32-bit words that the xorshift generator of the
  specification emits from the initial state \<open>(x, 362436069, 521288629, 88675123)\<close>, with
  \<open>x\<close> the result of the mixing function; a step takes \<open>(a, b, c, d)\<close> to
  \<open>(b, c, d, d')\<close> with \<open>t = a \<oplus> (a << 11)\<close> and \<open>d' = d \<oplus> (d >> 19) \<oplus> (t \<oplus> (t >> 8))\<close>,
  and emits \<open>d'\<close>. All words are 32-bit, the shifts logical.
\<close>

theorem block_is_xorshift_stream:
  assumes "length buf = BLOCK_SIZE"
  shows "get_block block buf file_seed =
           bytes_of_words
             (xorshift_words (BLOCK_SIZE div 4)
                (crc global_seed file_seed block, 362436069, 521288629, 88675123))
       \<and> length (get_block block buf file_seed) = BLOCK_SIZE
       \<and> length (xorshift_words (BLOCK_SIZE div 4)
                (crc global_seed file_seed block, 362436069, 521288629, 88675123))
           = BLOCK_SIZE div 4
       \<and> xorshift_step (a, b, c, d) =
           (b, c, d, d XOR drop_bit 19 d XOR ((a XOR push_bit 11 a) XOR drop_bit 8 (a XOR push_bit 11 a)))
       \<and> emitted (xorshift_step (a, b, c, d)) =
           d XOR drop_bit 19 d XOR ((a XOR push_bit 11 a) XOR drop_bit 8 (a XOR push_bit 11 a))"
proof -
  have "get_block block buf file_seed = bytes_of_words (block_words block file_seed)"
    using assms by (rule get_block_fills)
  moreover have "length (get_block block buf file_seed) = BLOCK_SIZE"
    using assms by (simp add: get_block_generate generate_block_length)
  ultimately show ?thesis
    by (simp add: block_words_def xorshift_step_def emitted_def Let_def del: push_bit_Suc)
qed

theorem block_is_xorshift_stream_witness:
  "length (replicate BLOCK_SIZE (0 :: u8)) = BLOCK_SIZE
   \<and> get_block 0 (replicate BLOCK_SIZE 0) 1 =
       bytes_of_words
         (xorshift_words (BLOCK_SIZE div 4) (crc global_seed 1 0, 362436069, 521288629, 88675123))
   \<and> length (get_block 0 (replicate BLOCK_SIZE 0) 1) = BLOCK_SIZE"
proof -
  have len: "length (replicate BLOCK_SIZE (0 :: u8)) = BLOCK_SIZE"
    by simp
  from block_is_xorshift_stream [OF len, of 0 1] len show ?thesis
    by blast
qed

subsection \<open>C7: files beyond the block-index space\<close>

text \<open>
  C7, as stated: a file size of \<open>2\<^sup>3\<^sup>2\<close> blocks or more is rejected when the file is
  registered, so that the block index cannot overflow during reads. This is false: a file
  of \<open>2\<^sup>4\<^sup>8 + 65536\<close> bytes is registered, and the block number at offset \<open>2\<^sup>4\<^sup>8\<close> is
  that at offset 0.
\<close>

theorem oversized_file_counterexample:
  "main_body (Some ''big'') (Some (0x1000000010000, CHR 0x00)) (Some (1, CHR 0x00)) []
     = Inr [\<lparr>name = ''big'', size_f = 0x1000000010000, seed = 1\<rparr>]
   \<and> block_nr 0x1000000000000 = block_nr 0"
  using block_nr_period [of 0] by (simp add: main_body_def parse_size_def)

text \<open>
  C7, amended: registration rejects a size only when it is zero (after the multiplier of
  the suffix, modulo \<open>2\<^sup>6\<^sup>4\<close>), and accepts every other size with a valid seed, however
  large. During reads the block number is the offset divided by \<^verbatim>\<open>BLOCK_SIZE\<close> and
  truncated to 32 bits, so that offsets \<open>2\<^sup>4\<^sup>8\<close> bytes apart have the same block number and
  the same offset within the block, the generated content at positions \<open>2\<^sup>4\<^sup>8\<close> apart is the
  same, and a read within the file at offset \<open>o + 2\<^sup>4\<^sup>8\<close> returns the same value and stores
  the same bytes as that read at offset \<open>o\<close>: the content of such a file repeats with
  period \<open>2\<^sup>4\<^sup>8\<close> bytes.
\<close>

theorem registration_checks_size_for_zero_only:
  "(main_body (Some nm) (Some (size_val, size_end)) (Some (seed_val, seed_end)) testfile_list
      = Inl InvalidSize \<longleftrightarrow> parse_size size_val size_end = 0)
   \<and> (parse_size size_val size_end \<noteq> 0 \<and> (ucast seed_val :: u32) \<noteq> 0 \<and> seed_end = CHR 0x00
        \<longrightarrow> main_body (Some nm) (Some (size_val, size_end)) (Some (seed_val, seed_end)) testfile_list
            = Inr (\<lparr>name = nm, size_f = parse_size size_val size_end, seed = ucast seed_val\<rparr>
                   # testfile_list))
   \<and> block_nr abs_offset = of_nat (unat abs_offset div BLOCK_SIZE)
   \<and> unat (block_nr abs_offset) = unat abs_offset div BLOCK_SIZE mod 2 ^ 32
   \<and> block_nr (abs_offset + 0x1000000000000) = block_nr abs_offset
   \<and> intra_offset (abs_offset + 0x1000000000000) = intra_offset abs_offset
   \<and> byte_at file_seed (pos + 2 ^ 48) = byte_at file_seed pos
   \<and> (lookup registry (skip_slash path) = Some testfile
        \<and> length block_buffer = BLOCK_SIZE
        \<and> unat sz \<le> length buf
        \<and> unat abs_offset + 2 ^ 48 + unat sz \<le> unat (size_f testfile)
        \<longrightarrow> fop_read registry path buf block_buffer sz (abs_offset + 0x1000000000000)
              = fop_read registry path buf block_buffer sz abs_offset
          \<and> fop_read registry path buf block_buffer sz abs_offset
              = Inr (sint (ucast sz :: 32 word),
                     map (byte_at (seed testfile)) [unat abs_offset..<unat abs_offset + unat sz],
                     drop (unat sz) buf))"
proof (intro conjI impI)
  show "main_body (Some nm) (Some (size_val, size_end)) (Some (seed_val, seed_end)) testfile_list
      = Inl InvalidSize \<longleftrightarrow> parse_size size_val size_end = 0"
    by (simp add: main_body_def Let_def)
next
  assume "parse_size size_val size_end \<noteq> 0 \<and> (ucast seed_val :: u32) \<noteq> 0
            \<and> seed_end = CHR 0x00"
  then show "main_body (Some nm) (Some (size_val, size_end)) (Some (seed_val, seed_end))
               testfile_list
            = Inr (\<lparr>name = nm, size_f = parse_size size_val size_end, seed = ucast seed_val\<rparr>
                   # testfile_list)"
    by (simp add: main_body_def Let_def)
next
  show "block_nr abs_offset = of_nat (unat abs_offset div BLOCK_SIZE)"
    by (rule block_nr_of_nat)
next
  show "unat (block_nr abs_offset) = unat abs_offset div BLOCK_SIZE mod 2 ^ 32"
    by (rule block_nr_unat)
next
  show "block_nr (abs_offset + 0x1000000000000) = block_nr abs_offset"
    by (rule block_nr_period)
next
  show "intra_offset (abs_offset + 0x1000000000000) = intra_offset abs_offset"
    by (rule intra_offset_period)
next
  show "byte_at file_seed (pos + 2 ^ 48) = byte_at file_seed pos"
    by (rule byte_at_period)
next
  assume h: "lookup registry (skip_slash path) = Some testfile
        \<and> length block_buffer = BLOCK_SIZE
        \<and> unat sz \<le> length buf
        \<and> unat abs_offset + 2 ^ 48 + unat sz \<le> unat (size_f testfile)"
  then have reg: "lookup registry (skip_slash path) = Some testfile"
    and bb: "length block_buffer = BLOCK_SIZE"
    and cap: "unat sz \<le> length buf"
    and inrange: "unat abs_offset + 2 ^ 48 + unat sz \<le> unat (size_f testfile)"
    by blast+
  show "fop_read registry path buf block_buffer sz (abs_offset + 0x1000000000000)
              = fop_read registry path buf block_buffer sz abs_offset"
    by (rule fop_read_period(1) [OF reg bb cap inrange])
  show "fop_read registry path buf block_buffer sz abs_offset
              = Inr (sint (ucast sz :: 32 word),
                     map (byte_at (seed testfile)) [unat abs_offset..<unat abs_offset + unat sz],
                     drop (unat sz) buf)"
    by (rule fop_read_period(2) [OF reg bb cap inrange])
qed

theorem registration_checks_size_for_zero_only_witness:
  "parse_size 262144 CHR ''g'' \<noteq> 0 \<and> (ucast (2 :: u64) :: u32) \<noteq> 0
   \<and> parse_size 262144 CHR ''g'' = 0x1000000000000
   \<and> main_body (Some ''testfile_256T'') (Some (262144, CHR ''g'')) (Some (2, CHR 0x00)) []
       = Inr [\<lparr>name = ''testfile_256T'', size_f = 0x1000000000000, seed = 2\<rparr>]
   \<and> main_body (Some ''empty'') (Some (0, CHR ''g'')) (Some (2, CHR 0x00)) [] = Inl InvalidSize
   \<and> lookup [\<lparr>name = ''big'', size_f = 0x1000000020000, seed = 1\<rparr>] (skip_slash ''/big'')
       = Some \<lparr>name = ''big'', size_f = 0x1000000020000, seed = 1\<rparr>
   \<and> length (replicate BLOCK_SIZE (0 :: u8)) = BLOCK_SIZE
   \<and> unat (12 :: u64) \<le> length (replicate 12 (0 :: u8))
   \<and> unat (65530 :: u64) + 2 ^ 48 + unat (12 :: u64) \<le> unat (0x1000000020000 :: u64)
   \<and> fop_read [\<lparr>name = ''big'', size_f = 0x1000000020000, seed = 1\<rparr>] ''/big''
         (replicate 12 0) (replicate BLOCK_SIZE 0) 12 0x100000000FFFA
       = fop_read [\<lparr>name = ''big'', size_f = 0x1000000020000, seed = 1\<rparr>] ''/big''
           (replicate 12 0) (replicate BLOCK_SIZE 0) 12 65530"
proof -
  let ?big = "\<lparr>name = ''big'', size_f = 0x1000000020000, seed = 1\<rparr>"
  have p: "parse_size 262144 CHR ''g'' = 0x1000000000000"
    by (simp add: parse_size_def)
  have z: "parse_size 0 CHR ''g'' = 0"
    by (simp add: parse_size_def)
  have s: "(ucast (2 :: u64) :: u32) = 2"
    by simp
  have reg: "lookup [?big] (skip_slash ''/big'') = Some ?big"
    by (simp add: lookup_def skip_slash_def)
  have bb: "length (replicate BLOCK_SIZE (0 :: u8)) = BLOCK_SIZE"
    by simp
  have cap: "unat (12 :: u64) \<le> length (replicate 12 (0 :: u8))"
    by simp
  have inrange: "unat (65530 :: u64) + 2 ^ 48 + unat (12 :: u64) \<le> unat (size_f ?big)"
    by simp
  have far: "(65530 :: u64) + 0x1000000000000 = 0x100000000FFFA"
    by simp
  have a: "main_body (Some ''testfile_256T'') (Some (262144, CHR ''g'')) (Some (2, CHR 0x00)) []
       = Inr [\<lparr>name = ''testfile_256T'', size_f = 0x1000000000000, seed = 2\<rparr>]"
    using registration_checks_size_for_zero_only
      [where nm = "''testfile_256T''" and size_val = 262144 and size_end = "CHR ''g''"
         and seed_val = 2 and seed_end = "CHR 0x00" and testfile_list = "[]"]
    by (simp add: p s)
  have b: "main_body (Some ''empty'') (Some (0, CHR ''g'')) (Some (2, CHR 0x00)) [] = Inl InvalidSize"
    using registration_checks_size_for_zero_only
      [where nm = "''empty''" and size_val = 0 and size_end = "CHR ''g''"
         and seed_val = 2 and seed_end = "CHR 0x00" and testfile_list = "[]"]
    by (simp add: z)
  have c: "fop_read [?big] ''/big'' (replicate 12 0) (replicate BLOCK_SIZE 0) 12 0x100000000FFFA
       = fop_read [?big] ''/big'' (replicate 12 0) (replicate BLOCK_SIZE 0) 12 65530"
    using registration_checks_size_for_zero_only
      [where registry = "[?big]" and path = "''/big''" and testfile = ?big
         and block_buffer = "replicate BLOCK_SIZE 0" and buf = "replicate 12 0"
         and sz = 12 and abs_offset = 65530]
      reg bb cap inrange
    by (simp only: far)
  from p s a b c reg bb cap inrange show ?thesis
    by simp
qed

subsection \<open>C8: adjacent blocks differ\<close>

text \<open>
  C8: for every block index \<open>i\<close> (a 32-bit value, so \<open>i + 1\<close> wraps around) and every file
  seed, the blocks \<open>i\<close> and \<open>i + 1\<close> of the block generator differ. The mixing function is
  injective in the block index, and the first word of a block determines the mixed seed.
\<close>

theorem adjacent_blocks_differ:
  "generate_block (i + 1) file_seed \<noteq> generate_block i file_seed"
proof
  assume "generate_block (i + 1) file_seed = generate_block i file_seed"
  then have "i + 1 = i"
    by (rule generate_block_inj)
  then show False
    by simp
qed

subsection \<open>C9: the name of a file does not matter\<close>

text \<open>
  C9: two registered files of equal size and equal seed give the same result for every
  request, whatever their names.
\<close>

theorem read_ignores_name:
  assumes "lookup testfile_list (skip_slash path) = Some testfile"
    and "lookup testfile_list (skip_slash path') = Some testfile'"
    and "size_f testfile = size_f testfile'"
    and "seed testfile = seed testfile'"
  shows "fop_read testfile_list path buf block_buffer sz abs_offset
           = fop_read testfile_list path' buf block_buffer sz abs_offset"
  by (simp only: fop_read_def Let_def assms option.case)

theorem read_ignores_name_witness:
  "lookup [\<lparr>name = ''a'', size_f = 1048576, seed = 7\<rparr>,
           \<lparr>name = ''b'', size_f = 1048576, seed = 7\<rparr>] (skip_slash ''/a'')
     = Some \<lparr>name = ''a'', size_f = 1048576, seed = 7\<rparr>
   \<and> lookup [\<lparr>name = ''a'', size_f = 1048576, seed = 7\<rparr>,
             \<lparr>name = ''b'', size_f = 1048576, seed = 7\<rparr>] (skip_slash ''/b'')
     = Some \<lparr>name = ''b'', size_f = 1048576, seed = 7\<rparr>
   \<and> fop_read [\<lparr>name = ''a'', size_f = 1048576, seed = 7\<rparr>,
               \<lparr>name = ''b'', size_f = 1048576, seed = 7\<rparr>] ''/a''
         (replicate 12 0) (replicate BLOCK_SIZE 0) 12 65530
     = fop_read [\<lparr>name = ''a'', size_f = 1048576, seed = 7\<rparr>,
               \<lparr>name = ''b'', size_f = 1048576, seed = 7\<rparr>] ''/b''
         (replicate 12 0) (replicate BLOCK_SIZE 0) 12 65530"
proof -
  let ?a = "\<lparr>name = ''a'', size_f = 1048576, seed = 7\<rparr>"
  let ?b = "\<lparr>name = ''b'', size_f = 1048576, seed = 7\<rparr>"
  have a: "lookup [?a, ?b] (skip_slash ''/a'') = Some ?a"
    and b: "lookup [?a, ?b] (skip_slash ''/b'') = Some ?b"
    by (simp_all add: lookup_def skip_slash_def)
  have "size_f ?a = size_f ?b" and "seed ?a = seed ?b"
    by simp_all
  from read_ignores_name [OF a b this] a b show ?thesis
    by blast
qed

subsection \<open>C10: the read loop terminates\<close>

text \<open>
  C10: while the remaining length is positive, a pass through the loop consumes
  \<open>n \<ge> 1\<close> bytes, where \<open>n\<close> is \<^verbatim>\<open>BLOCK_SIZE\<close> on the aligned path and the minimum of the
  remaining length and \<^verbatim>\<open>BLOCK_SIZE\<close> minus the offset within the block (itself below
  \<^verbatim>\<open>BLOCK_SIZE\<close>) otherwise; the remaining length decreases by \<open>n\<close>. The loop ends for every
  request, with the remaining length zero unless a store left the caller's buffer, and
  with a buffer of at least \<open>size\<close> bytes it ends after storing \<open>size\<close> bytes.
\<close>

theorem read_loop_terminates:
  assumes bb: "length block_buffer = BLOCK_SIZE"
  shows "(sz \<noteq> 0 \<longrightarrow>
           (\<exists>n chunk.
              n = (if intra_offset abs_offset = 0 \<and> of_nat BLOCK_SIZE \<le> sz then BLOCK_SIZE
                   else min (unat sz) (BLOCK_SIZE - unat (intra_offset abs_offset)))
            \<and> unat (intra_offset abs_offset) < BLOCK_SIZE
            \<and> 1 \<le> n \<and> n \<le> unat sz \<and> length chunk = n
            \<and> read_body file_seed block_buffer (out, buf, sz, abs_offset) =
                (if length buf < n then Inl BufferOverflow
                 else Inr (out @ chunk, drop n buf, sz - of_nat n, abs_offset + of_nat n))
            \<and> unat (sz - of_nat n) = unat sz - n
            \<and> unat (sz - of_nat n) < unat sz))
       \<and> (read_loop file_seed block_buffer (out, buf, sz, abs_offset) = Inl BufferOverflow
          \<or> (\<exists>out' buf' fin.
                read_loop file_seed block_buffer (out, buf, sz, abs_offset)
                  = Inr (out', buf', 0, fin)))
       \<and> (unat sz \<le> length buf \<longrightarrow>
           (\<exists>out' fin.
              read_loop file_seed block_buffer (out, buf, sz, abs_offset)
                = Inr (out', drop (unat sz) buf, 0, fin)
            \<and> length out' = length out + unat sz))"
proof (intro conjI impI)
  assume nz: "sz \<noteq> 0"
  define n where "n = min (unat sz) (BLOCK_SIZE - unat abs_offset mod BLOCK_SIZE)"
  define chunk where "chunk = take n (drop (unat abs_offset mod BLOCK_SIZE)
                                     (generate_block (block_nr abs_offset) file_seed))"
  have body: "read_body file_seed block_buffer (out, buf, sz, abs_offset) =
           (if length buf < n then Inl BufferOverflow
            else Inr (out @ chunk, drop n buf, sz - of_nat n, abs_offset + of_nat n))"
    unfolding n_def chunk_def by (rule read_body_shape(1) [OF bb nz])
  have n0: "0 < n" and nle: "n \<le> unat sz"
    unfolding n_def by (rule read_body_shape(2,3) [OF bb nz])+
  have alt: "n = (if intra_offset abs_offset = 0 \<and> of_nat BLOCK_SIZE \<le> sz then BLOCK_SIZE
                   else min (unat sz) (BLOCK_SIZE - unat (intra_offset abs_offset)))"
    unfolding n_def by (rule read_body_shape(5) [OF bb nz])
  have io: "unat (intra_offset abs_offset) < BLOCK_SIZE"
    using BLOCK_SIZE_pos by (simp add: intra_offset_unat)
  have lc: "length chunk = n"
    by (simp add: chunk_def generate_block_length) (simp add: n_def)
  have s': "unat (sz - of_nat n) = unat sz - n"
    using nle by (rule unat_sub_of_nat)
  have lt: "unat (sz - of_nat n) < unat sz"
    using n0 nle by (simp add: s')
  from alt io n0 nle lc body s' lt
  show "\<exists>n chunk.
              n = (if intra_offset abs_offset = 0 \<and> of_nat BLOCK_SIZE \<le> sz then BLOCK_SIZE
                   else min (unat sz) (BLOCK_SIZE - unat (intra_offset abs_offset)))
            \<and> unat (intra_offset abs_offset) < BLOCK_SIZE
            \<and> 1 \<le> n \<and> n \<le> unat sz \<and> length chunk = n
            \<and> read_body file_seed block_buffer (out, buf, sz, abs_offset) =
                (if length buf < n then Inl BufferOverflow
                 else Inr (out @ chunk, drop n buf, sz - of_nat n, abs_offset + of_nat n))
            \<and> unat (sz - of_nat n) = unat sz - n
            \<and> unat (sz - of_nat n) < unat sz"
    by (intro exI [of _ n] exI [of _ chunk]) simp
next
  have "length buf = length buf"
    by simp
  from read_loop_buffers [OF bb bb this]
  show "read_loop file_seed block_buffer (out, buf, sz, abs_offset) = Inl BufferOverflow
          \<or> (\<exists>out' buf' fin.
                read_loop file_seed block_buffer (out, buf, sz, abs_offset)
                  = Inr (out', buf', 0, fin))"
    by blast
next
  assume "unat sz \<le> length buf"
  with bb show "\<exists>out' fin.
              read_loop file_seed block_buffer (out, buf, sz, abs_offset)
                = Inr (out', drop (unat sz) buf, 0, fin)
            \<and> length out' = length out + unat sz"
    by (rule read_loop_total)
qed

theorem read_loop_terminates_witness:
  "length (replicate BLOCK_SIZE (0 :: u8)) = BLOCK_SIZE
   \<and> (12 :: u64) \<noteq> 0
   \<and> unat (12 :: u64) \<le> length (replicate 12 (0 :: u8))
   \<and> (\<exists>out' fin.
         read_loop 1 (replicate BLOCK_SIZE 0) ([], replicate 12 0, 12, 65530)
           = Inr (out', [], 0, fin)
       \<and> length out' = 12)
   \<and> (\<exists>chunk.
         length chunk = 6
       \<and> read_body 1 (replicate BLOCK_SIZE 0) ([], replicate 12 0, 12, 65530)
           = Inr (chunk, replicate 6 0, 6, 65536))"
proof -
  have bb: "length (replicate BLOCK_SIZE (0 :: u8)) = BLOCK_SIZE"
    by simp
  have io: "intra_offset 65530 = 65530"
    by (simp add: intra_offset_def OFFSET_MASK_def BLOCK_SIZE_def)
  from read_loop_terminates [OF bb, of 12 65530 1 "[]" "replicate 12 0"]
  show ?thesis
    by (simp add: io) (auto simp add: BLOCK_SIZE_def)
qed

end
